theory Spec2Isabelle
  imports Main "HOL-Library.Multiset"
begin

section \<open>JavaScript strings\<close>

text \<open>
  The handler of \<^verbatim>\<open>src/api/fx.js\<close> works on JavaScript strings. A string is modelled
  as the list of its code units, \<^typ>\<open>string\<close>; Isabelle's \<^typ>\<open>char\<close> covers the code
  units below 256. The case mappings are the ASCII ones: JavaScript applies the Unicode
  mappings, which agree with them on ASCII text.
\<close>

definition lower_az :: string where
  "lower_az = ''abcdefghijklmnopqrstuvwxyz''"

definition upper_az :: string where
  "upper_az = ''ABCDEFGHIJKLMNOPQRSTUVWXYZ''"

definition decimal_digits :: string where
  "decimal_digits = ''0123456789''"

definition upper_unit :: "char \<Rightarrow> char" where
  "upper_unit c = (case map_of (zip lower_az upper_az) c of Some u \<Rightarrow> u | None \<Rightarrow> c)"

definition lower_unit :: "char \<Rightarrow> char" where
  "lower_unit c = (case map_of (zip upper_az lower_az) c of Some l \<Rightarrow> l | None \<Rightarrow> c)"

definition toUpperCase :: "string \<Rightarrow> string" where
  "toUpperCase s = map upper_unit s"

definition toLowerCase :: "string \<Rightarrow> string" where
  "toLowerCase s = map lower_unit s"

text \<open>
  \<^verbatim>\<open>String.prototype.trim\<close> strips white space and line terminators from both ends:
  tab, line feed, vertical tab, form feed, carriage return, space and the no-break
  space are the ones below 256.
\<close>

definition isWhiteSpace :: "char \<Rightarrow> bool" where
  "isWhiteSpace c =
     (c \<in> set [CHR 0x09, CHR 0x0A, CHR 0x0B, CHR 0x0C, CHR 0x0D, CHR 0x20, CHR 0xA0])"

definition trim :: "string \<Rightarrow> string" where
  "trim s = rev (dropWhile isWhiteSpace (rev (dropWhile isWhiteSpace s)))"

text \<open>\<^verbatim>\<open>s.split(sep)\<close> for a one-character separator: never the empty array.\<close>

fun cons_first :: "char \<Rightarrow> string list \<Rightarrow> string list" where
  "cons_first c [] = [[c]]"
| "cons_first c (w # ws) = (c # w) # ws"

fun split_on :: "char \<Rightarrow> string \<Rightarrow> string list" where
  "split_on sep [] = [[]]"
| "split_on sep (c # cs) =
     (if c = sep then [] # split_on sep cs else cons_first c (split_on sep cs))"

text \<open>\<^verbatim>\<open>s.split(/\r?\n/)\<close>: a line feed, with the carriage return before it if any.\<close>

fun split_lines :: "string \<Rightarrow> string list" where
  "split_lines [] = [[]]"
| "split_lines [c] = (if c = CHR 0x0A then [[], []] else [[c]])"
| "split_lines (c # d # ds) =
     (if c = CHR 0x0A then [] # split_lines (d # ds)
      else if c = CHR 0x0D \<and> d = CHR 0x0A then [] # split_lines ds
      else cons_first c (split_lines (d # ds)))"

definition padStart :: "nat \<Rightarrow> char \<Rightarrow> string \<Rightarrow> string" where
  "padStart n c s = replicate (n - length s) c @ s"

definition endsWith :: "string \<Rightarrow> string \<Rightarrow> bool" where
  "endsWith s suffix = (length suffix \<le> length s \<and> drop (length s - length suffix) s = suffix)"

text \<open>
  \<^verbatim>\<open>arr.indexOf(x)\<close>: the first position of \<open>x\<close>; \<open>None\<close> stands for the
  result \<open>-1\<close>.
\<close>

fun indexOf :: "'a list \<Rightarrow> 'a \<Rightarrow> nat option" where
  "indexOf [] x = None"
| "indexOf (y # ys) x = (if y = x then Some 0 else map_option Suc (indexOf ys x))"

text \<open>Decimal digits, and \<^verbatim>\<open>String(n)\<close> for an integer \<open>n\<close>.\<close>

definition isDigit :: "char \<Rightarrow> bool" where
  "isDigit c = (c \<in> set decimal_digits)"

definition digit_val :: "char \<Rightarrow> nat" where
  "digit_val c = (case indexOf decimal_digits c of Some v \<Rightarrow> v | None \<Rightarrow> 0)"

definition digit_char :: "nat \<Rightarrow> char" where
  "digit_char v = decimal_digits ! (v mod 10)"

definition digits_val :: "string \<Rightarrow> nat" where
  "digits_val s = foldl (\<lambda>a c. 10 * a + digit_val c) 0 s"

fun String_of_nat :: "nat \<Rightarrow> string" where
  "String_of_nat n =
     (if n < 10 then [digit_char n] else String_of_nat (n div 10) @ [digit_char (n mod 10)])"

declare String_of_nat.simps [simp del]

definition String_of_int :: "int \<Rightarrow> string" where
  "String_of_int i = (if i < 0 then CHR ''-'' # String_of_nat (nat (- i)) else String_of_nat (nat i))"

text \<open>
  The relational operator \<^verbatim>\<open>a > b\<close> on two strings compares them code unit by code
  unit; a proper prefix is the smaller string.
\<close>

fun string_gt :: "string \<Rightarrow> string \<Rightarrow> bool" where
  "string_gt [] b = False"
| "string_gt (x # xs) [] = True"
| "string_gt (x # xs) (y # ys) =
     (if x = y then string_gt xs ys else (of_char y :: nat) < of_char x)"

text \<open>The two regular expressions of the handler, each anchored at both ends.\<close>

definition isUpperAZ :: "char \<Rightarrow> bool" where
  "isUpperAZ c = (c \<in> set upper_az)"

definition matches_symbol :: "string \<Rightarrow> bool" where
  \<comment> \<open>\<^verbatim>\<open>/^[A-Z]{6}$/\<close>\<close>
  "matches_symbol s = (length s = 6 \<and> list_all isUpperAZ s)"

definition matches_date :: "string \<Rightarrow> bool" where
  \<comment> \<open>\<^verbatim>\<open>/^\d{4}-\d{2}-\d{2}$/\<close>\<close>
  "matches_date s =
     (case s of
        [y1, y2, y3, y4, h1, m1, m2, h2, d1, d2] \<Rightarrow>
          list_all isDigit [y1, y2, y3, y4, m1, m2, d1, d2] \<and> h1 = CHR ''-'' \<and> h2 = CHR ''-''
      | _ \<Rightarrow> False)"

section \<open>ECMAScript time values and the \<^verbatim>\<open>Date\<close> methods the handler calls\<close>

text \<open>
  A time value is a number of milliseconds since 1970-01-01T00:00:00Z. The functions
  below are the abstract operations of the ECMAScript specification (Day, DayFromYear,
  YearFromTime, MonthFromTime, DateFromTime, WeekDay, MakeDay, MakeTime, MakeDate,
  TimeClip) under their own names.
\<close>

definition msPerDay :: int where "msPerDay = 86400000"
definition msPerHour :: int where "msPerHour = 3600000"
definition msPerMinute :: int where "msPerMinute = 60000"
definition msPerSecond :: int where "msPerSecond = 1000"

definition Day :: "int \<Rightarrow> int" where
  "Day t = t div msPerDay"

definition TimeWithinDay :: "int \<Rightarrow> int" where
  "TimeWithinDay t = t mod msPerDay"

definition DaysInYear :: "int \<Rightarrow> int" where
  "DaysInYear y =
     (if y mod 4 \<noteq> 0 then 365 else if y mod 100 \<noteq> 0 then 366
      else if y mod 400 \<noteq> 0 then 365 else 366)"

definition DayFromYear :: "int \<Rightarrow> int" where
  "DayFromYear y = 365 * (y - 1970) + (y - 1969) div 4 - (y - 1901) div 100 + (y - 1601) div 400"

lemma div_step:
  assumes "0 < (k::int)"
  shows "x div k = (x - 1) div k + (if x mod k = 0 then 1 else 0)"
proof -
  define q r where "q = (x - 1) div k" and "r = (x - 1) mod k"
  have x: "x = q * k + (r + 1)"
    unfolding q_def r_def by simp
  have r: "0 \<le> r" "r < k"
    using assms by (simp_all add: r_def)
  show ?thesis
  proof (cases "r + 1 = k")
    case True
    then have e: "x = (q + 1) * k"
      using x by (simp add: algebra_simps)
    have "x div k = q + 1"
      by (subst e) (use assms in simp)
    moreover have "x mod k = 0"
      by (subst e) simp
    ultimately show ?thesis
      unfolding q_def by simp
  next
    case False
    then have b: "r + 1 < k" "0 \<le> r + 1"
      using r by auto
    have "x div k = q"
      by (subst x) (use b assms in \<open>simp add: div_pos_pos_trivial\<close>)
    moreover have "x mod k = r + 1"
      by (subst x) (use b assms in \<open>simp add: mod_pos_pos_trivial\<close>)
    ultimately show ?thesis
      using r unfolding q_def by simp
  qed
qed

lemma mod_400_100: "(y::int) mod 400 = 0 \<Longrightarrow> y mod 100 = 0"
proof -
  assume "y mod 400 = 0"
  then have "400 dvd y" by (simp add: mod_eq_0_iff_dvd)
  moreover have "(100::int) dvd 400" by simp
  ultimately have "100 dvd y" using dvd_trans by blast
  then show ?thesis by simp
qed

lemma mod_100_4: "(y::int) mod 100 = 0 \<Longrightarrow> y mod 4 = 0"
proof -
  assume "y mod 100 = 0"
  then have "100 dvd y" by (simp add: mod_eq_0_iff_dvd)
  moreover have "(4::int) dvd 100" by simp
  ultimately have "4 dvd y" using dvd_trans by blast
  then show ?thesis by simp
qed

lemma DayFromYear_shift:
  "DayFromYear y =
     365 * (y - 1970) + ((y - 1) div 4 - 492) - ((y - 1) div 100 - 19) + ((y - 1) div 400 - 4)"
proof -
  have "(y - 1969) div 4 = (y - 1) div 4 - 492"
    by simp
  moreover have "(y - 1901) div 100 = (y - 1) div 100 - 19"
    by simp
  moreover have "(y - 1601) div 400 = (y - 1) div 400 - 4"
    by simp
  ultimately show ?thesis
    unfolding DayFromYear_def by simp
qed

lemma DayFromYear_Suc: "DayFromYear (y + 1) = DayFromYear y + DaysInYear y"
proof -
  have "DayFromYear (y + 1) =
          365 * (y + 1 - 1970) + (y div 4 - 492) - (y div 100 - 19) + (y div 400 - 4)"
    by (simp add: DayFromYear_shift)
  also have "\<dots> = DayFromYear y + (365 + (if y mod 4 = 0 then 1 else 0)
                 - (if y mod 100 = 0 then 1 else 0) + (if y mod 400 = 0 then 1 else 0))"
    unfolding DayFromYear_shift [of y]
    by (simp only: div_step [of 4 y] div_step [of 100 y] div_step [of 400 y]) simp
  also have "365 + (if y mod 4 = 0 then 1 else 0) - (if y mod 100 = 0 then 1 else 0)
               + (if y mod 400 = 0 then 1 else (0::int)) = DaysInYear y"
    using mod_400_100 [of y] mod_100_4 [of y] by (auto simp: DaysInYear_def)
  finally show ?thesis .
qed

lemma DaysInYear_pos: "365 \<le> DaysInYear y"
  by (simp add: DaysInYear_def)

text \<open>
  YearFromTime is the largest year whose first day is not after the given day. The
  search starts from an estimate, walks down while the year starts too late and then up
  while the next year has started.
\<close>

function year_down :: "int \<Rightarrow> int \<Rightarrow> int" where
  "year_down d y = (if d < DayFromYear y then year_down d (y - 1) else y)"
  by pat_completeness auto
termination
proof (relation "measure (\<lambda>(d, y). nat (DayFromYear y - d))")
  fix d y :: int
  assume "d < DayFromYear y"
  moreover have "DayFromYear (y - 1) < DayFromYear y"
    using DayFromYear_Suc [of "y - 1"] DaysInYear_pos [of "y - 1"] by simp
  ultimately show "((d, y - 1), (d, y)) \<in> measure (\<lambda>(d, y). nat (DayFromYear y - d))"
    by simp
qed simp

function year_up :: "int \<Rightarrow> int \<Rightarrow> int" where
  "year_up d y = (if DayFromYear (y + 1) \<le> d then year_up d (y + 1) else y)"
  by pat_completeness auto
termination
proof (relation "measure (\<lambda>(d, y). nat (d + 1 - DayFromYear (y + 1)))")
  fix d y :: int
  assume "DayFromYear (y + 1) \<le> d"
  moreover have "DayFromYear (y + 1) < DayFromYear (y + 1 + 1)"
    using DayFromYear_Suc [of "y + 1"] DaysInYear_pos [of "y + 1"] by simp
  ultimately show "((d, y + 1), (d, y)) \<in> measure (\<lambda>(d, y). nat (d + 1 - DayFromYear (y + 1)))"
    by simp
qed simp

declare year_down.simps [simp del] year_up.simps [simp del]

definition YearFromDay :: "int \<Rightarrow> int" where
  "YearFromDay d = year_up d (year_down d (1970 + d div 365))"

definition YearFromTime :: "int \<Rightarrow> int" where
  "YearFromTime t = YearFromDay (Day t)"

definition leap_day :: "int \<Rightarrow> int" where
  \<comment> \<open>1 for a leap year, 0 for another\<close>
  "leap_day y = (if DaysInYear y = 366 then 1 else 0)"

definition InLeapYear :: "int \<Rightarrow> int" where
  "InLeapYear t = leap_day (YearFromTime t)"

definition DayWithinYear :: "int \<Rightarrow> int" where
  "DayWithinYear t = Day t - DayFromYear (YearFromTime t)"

definition MonthFromDay :: "int \<Rightarrow> int \<Rightarrow> int" where
  \<comment> \<open>the month number, 0 for January, of day \<open>d\<close> within a year; \<open>l\<close> is 1 in a leap year\<close>
  "MonthFromDay l d =
     (if d < 31 then 0 else if d < 59 + l then 1 else if d < 90 + l then 2
      else if d < 120 + l then 3 else if d < 151 + l then 4 else if d < 181 + l then 5
      else if d < 212 + l then 6 else if d < 243 + l then 7 else if d < 273 + l then 8
      else if d < 304 + l then 9 else if d < 334 + l then 10 else 11)"

definition DaysBeforeMonth :: "int \<Rightarrow> int \<Rightarrow> int" where
  \<comment> \<open>the day within the year on which month \<open>m\<close> (0 for January) starts\<close>
  "DaysBeforeMonth l m =
     (if m = 0 then 0 else if m = 1 then 31 else if m = 2 then 59 + l
      else if m = 3 then 90 + l else if m = 4 then 120 + l else if m = 5 then 151 + l
      else if m = 6 then 181 + l else if m = 7 then 212 + l else if m = 8 then 243 + l
      else if m = 9 then 273 + l else if m = 10 then 304 + l else 334 + l)"

definition MonthFromTime :: "int \<Rightarrow> int" where
  "MonthFromTime t = MonthFromDay (InLeapYear t) (DayWithinYear t)"

definition DateFromTime :: "int \<Rightarrow> int" where
  "DateFromTime t = DayWithinYear t - DaysBeforeMonth (InLeapYear t) (MonthFromTime t) + 1"

definition WeekDay :: "int \<Rightarrow> int" where
  \<comment> \<open>0 is Sunday, 6 is Saturday\<close>
  "WeekDay t = (Day t + 4) mod 7"

definition HourFromTime :: "int \<Rightarrow> int" where
  "HourFromTime t = (t div msPerHour) mod 24"

definition MinFromTime :: "int \<Rightarrow> int" where
  "MinFromTime t = (t div msPerMinute) mod 60"

definition SecFromTime :: "int \<Rightarrow> int" where
  "SecFromTime t = (t div msPerSecond) mod 60"

definition msFromTime :: "int \<Rightarrow> int" where
  "msFromTime t = t mod msPerSecond"

definition MakeDay :: "int \<Rightarrow> int \<Rightarrow> int \<Rightarrow> int" where
  "MakeDay year month date =
     (let ym = year + month div 12; mn = month mod 12
      in DayFromYear ym + DaysBeforeMonth (leap_day ym) mn + date - 1)"

definition MakeTime :: "int \<Rightarrow> int \<Rightarrow> int \<Rightarrow> int \<Rightarrow> int" where
  "MakeTime h m s ms = h * msPerHour + m * msPerMinute + s * msPerSecond + ms"

definition MakeDate :: "int \<Rightarrow> int \<Rightarrow> int" where
  "MakeDate day time = day * msPerDay + time"

text \<open>A \<^verbatim>\<open>Date\<close> holds a time value or NaN (an invalid date): \<open>None\<close> is NaN.\<close>

type_synonym timevalue = "int option"

definition TimeClip :: "int \<Rightarrow> timevalue" where
  "TimeClip t = (if \<bar>t\<bar> \<le> 8640000000000000 then Some t else None)"

text \<open>
  Local time: \<open>tz\<close> is the offset of the host's time zone in minutes east of UTC, a
  fixed offset (0 on the serverless platform the handler is written for).
\<close>

definition LocalTime :: "int \<Rightarrow> int \<Rightarrow> int" where
  "LocalTime tz t = t + tz * msPerMinute"

definition UTC :: "int \<Rightarrow> int \<Rightarrow> int" where
  "UTC tz t = t - tz * msPerMinute"

definition getDay :: "int \<Rightarrow> timevalue \<Rightarrow> int option" where
  "getDay tz tv = map_option (\<lambda>t. WeekDay (LocalTime tz t)) tv"

definition getDate :: "int \<Rightarrow> timevalue \<Rightarrow> int option" where
  "getDate tz tv = map_option (\<lambda>t. DateFromTime (LocalTime tz t)) tv"

definition setDate :: "int \<Rightarrow> timevalue \<Rightarrow> int option \<Rightarrow> timevalue" where
  "setDate tz tv date =
     (case (tv, date) of
        (Some t, Some dt) \<Rightarrow>
          (let lt = LocalTime tz t;
               newDate = MakeDate (MakeDay (YearFromTime lt) (MonthFromTime lt) dt) (TimeWithinDay lt)
           in TimeClip (UTC tz newDate))
      | _ \<Rightarrow> None)"

definition getUTCFullYear :: "timevalue \<Rightarrow> int option" where
  "getUTCFullYear tv = map_option YearFromTime tv"

definition getUTCMonth :: "timevalue \<Rightarrow> int option" where
  "getUTCMonth tv = map_option MonthFromTime tv"

definition getUTCDate :: "timevalue \<Rightarrow> int option" where
  "getUTCDate tv = map_option DateFromTime tv"

text \<open>\<^verbatim>\<open>String(x)\<close> for a number that is an integer or NaN.\<close>

definition String_of_number :: "int option \<Rightarrow> string" where
  "String_of_number x = (case x of None \<Rightarrow> ''NaN'' | Some i \<Rightarrow> String_of_int i)"

text \<open>
  The exceptions the handler can meet: the RangeError of \<^verbatim>\<open>toISOString\<close> on an
  invalid date, and the TypeError of calling a method that the receiver does not have.
\<close>

datatype exn = RangeError | TypeError

text \<open>
  \<^verbatim>\<open>toISOString\<close> prints each field in a fixed number of decimal digits; \<open>dec w n\<close>
  is the numeral of \<open>n\<close> in \<open>w\<close> digits (every use has \<open>n < 10 ^ w\<close>).
\<close>

fun dec :: "nat \<Rightarrow> nat \<Rightarrow> string" where
  "dec 0 n = []"
| "dec (Suc w) n = dec w (n div 10) @ [digit_char n]"

definition pad_num :: "nat \<Rightarrow> int \<Rightarrow> string" where
  "pad_num w n = dec w (nat n)"

definition iso_year :: "int \<Rightarrow> string" where
  "iso_year y =
     (if 0 \<le> y \<and> y \<le> 9999 then pad_num 4 y
      else (if y < 0 then CHR ''-'' else CHR ''+'') # pad_num 6 \<bar>y\<bar>)"

definition toISOString :: "timevalue \<Rightarrow> exn + string" where
  "toISOString tv =
     (case tv of
        None \<Rightarrow> Inl RangeError
      | Some t \<Rightarrow>
          Inr (iso_year (YearFromTime t) @ ''-'' @ pad_num 2 (MonthFromTime t + 1) @ ''-''
               @ pad_num 2 (DateFromTime t) @ ''T'' @ pad_num 2 (HourFromTime t) @ '':''
               @ pad_num 2 (MinFromTime t) @ '':'' @ pad_num 2 (SecFromTime t) @ ''.''
               @ pad_num 3 (msFromTime t) @ ''Z''))"

subsection \<open>Parsing a date-time string\<close>

text \<open>
  \<^verbatim>\<open>new Date(s)\<close> on the date-time strings the handler builds: a date (a year of four
  digits, or a sign and six digits, then optionally \<open>-MM\<close> and \<open>-DD\<close>), the letter T,
  \<open>HH:mm:ss\<close> and a zone designator (Z or a signed \<open>HH:mm\<close>). As in V8, the engine
  of Node.js, a month must be 01 to 12 and a day 01 to 31; a day past the end of its
  month is carried into the next month by MakeDay. Any other string is an invalid date
  here.
\<close>

definition fixed_number :: "nat \<Rightarrow> string \<Rightarrow> (nat \<times> string) option" where
  \<comment> \<open>a run of exactly \<open>k\<close> digits at the front\<close>
  "fixed_number k s =
     (let ds = takeWhile isDigit s
      in if length ds = k then Some (digits_val ds, dropWhile isDigit s) else None)"

definition parse_year :: "string \<Rightarrow> (int \<times> string) option" where
  "parse_year s =
     (case s of
        [] \<Rightarrow> None
      | c # cs \<Rightarrow>
          if c = CHR ''+'' \<or> c = CHR ''-'' then
            (case fixed_number 6 cs of
               None \<Rightarrow> None
             | Some (y, rest) \<Rightarrow>
                 if c = CHR ''-'' then (if y = 0 then None else Some (- int y, rest))
                 else Some (int y, rest))
          else map_option (\<lambda>(y, rest). (int y, rest)) (fixed_number 4 s))"

definition parse_dash_field :: "nat \<Rightarrow> string \<Rightarrow> (int \<times> string) option option" where
  \<comment> \<open>an optional \<open>-NN\<close> with \<open>1 \<le> NN \<le> hi\<close>: \<open>None\<close> is a malformed field,
      \<open>Some None\<close> an absent one\<close>
  "parse_dash_field hi s =
     (case s of
        c # cs \<Rightarrow>
          if c = CHR ''-'' then
            (case fixed_number 2 cs of
               None \<Rightarrow> None
             | Some (v, rest) \<Rightarrow> if 1 \<le> v \<and> v \<le> hi then Some (Some (int v, rest)) else None)
          else Some None
      | [] \<Rightarrow> Some None)"

definition parse_date :: "string \<Rightarrow> ((int \<times> int \<times> int) \<times> string) option" where
  "parse_date s =
     (case parse_year s of
        None \<Rightarrow> None
      | Some (y, r1) \<Rightarrow>
          (case parse_dash_field 12 r1 of
             None \<Rightarrow> None
           | Some None \<Rightarrow> Some ((y, 1, 1), r1)
           | Some (Some (m, r2)) \<Rightarrow>
               (case parse_dash_field 31 r2 of
                  None \<Rightarrow> None
                | Some None \<Rightarrow> Some ((y, m, 1), r2)
                | Some (Some (d, r3)) \<Rightarrow> Some ((y, m, d), r3))))"

definition expect :: "char \<Rightarrow> string \<Rightarrow> string option" where
  "expect c s = (case s of x # xs \<Rightarrow> if x = c then Some xs else None | [] \<Rightarrow> None)"

definition parse_hms :: "string \<Rightarrow> ((nat \<times> nat \<times> nat) \<times> string) option" where
  "parse_hms s =
     (case fixed_number 2 s of None \<Rightarrow> None | Some (h, r1) \<Rightarrow>
      case expect (CHR '':'') r1 of None \<Rightarrow> None | Some r2 \<Rightarrow>
      case fixed_number 2 r2 of None \<Rightarrow> None | Some (m, r3) \<Rightarrow>
      case expect (CHR '':'') r3 of None \<Rightarrow> None | Some r4 \<Rightarrow>
      case fixed_number 2 r4 of None \<Rightarrow> None | Some (sec, r5) \<Rightarrow>
        if (h \<le> 23 \<and> m \<le> 59 \<and> sec \<le> 59) \<or> (h = 24 \<and> m = 0 \<and> sec = 0)
        then Some ((h, m, sec), r5) else None)"

definition parse_zone :: "string \<Rightarrow> int option" where
  \<comment> \<open>the offset of the zone in minutes east of UTC; the designator ends the string\<close>
  "parse_zone s =
     (if s = ''Z'' then Some 0
      else case s of
        [] \<Rightarrow> None
      | c # cs \<Rightarrow>
          if c = CHR ''+'' \<or> c = CHR ''-'' then
            (case fixed_number 2 cs of None \<Rightarrow> None | Some (h, r1) \<Rightarrow>
             case expect (CHR '':'') r1 of None \<Rightarrow> None | Some r2 \<Rightarrow>
             case fixed_number 2 r2 of None \<Rightarrow> None | Some (m, r3) \<Rightarrow>
               if r3 = [] \<and> h \<le> 23 \<and> m \<le> 59
               then Some ((if c = CHR ''-'' then - 1 else 1) * (int h * 60 + int m))
               else None)
          else None)"

definition Date_parse :: "string \<Rightarrow> timevalue" where
  "Date_parse s =
     (case parse_date s of None \<Rightarrow> None | Some ((y, m, d), r1) \<Rightarrow>
      case expect (CHR ''T'') r1 of None \<Rightarrow> None | Some r2 \<Rightarrow>
      case parse_hms r2 of None \<Rightarrow> None | Some ((h, mi, sec), r3) \<Rightarrow>
      case parse_zone r3 of None \<Rightarrow> None | Some off \<Rightarrow>
        TimeClip (MakeDate (MakeDay y (m - 1) d) (MakeTime (int h) (int mi) (int sec) 0)
                  - off * msPerMinute))"

section \<open>The helpers of \<^verbatim>\<open>src/api/fx.js\<close>\<close>

text \<open>
  \<^verbatim>\<open>priorBizIfWeekend\<close> (lines 95 to 101; the same text stands at lines 33 to 39 of
  \<^verbatim>\<open>src/API/fx.js\<close>). \<^verbatim>\<open>getDay\<close>, \<^verbatim>\<open>getDate\<close> and \<^verbatim>\<open>setDate\<close> read and write
  the date in the host's local time, \<^verbatim>\<open>toISOString\<close> prints it in UTC and throws a
  RangeError on an invalid date.
\<close>

definition priorBizIfWeekend :: "int \<Rightarrow> string \<Rightarrow> exn + string" where
  "priorBizIfWeekend tz isoDate =
     (let d = Date_parse (isoDate @ ''T00:00:00-04:00'');
          wd = getDay tz d;
          d = (if wd = Some 6 then setDate tz d (map_option (\<lambda>x. x - 1) (getDate tz d)) else d);
          d = (if wd = Some 0 then setDate tz d (map_option (\<lambda>x. x - 2) (getDate tz d)) else d)
      in map_sum id (take 10) (toISOString d))"

definition toMMDDYYYY :: "string \<Rightarrow> string" where
  "toMMDDYYYY isoDate =
     (let d = Date_parse (isoDate @ ''T00:00:00Z'');
          mm = padStart 2 (CHR ''0'') (String_of_number (map_option (\<lambda>x. x + 1) (getUTCMonth d)));
          dd = padStart 2 (CHR ''0'') (String_of_number (getUTCDate d));
          yy = String_of_number (getUTCFullYear d)
      in mm @ ''/'' @ dd @ ''/'' @ yy)"

subsection \<open>\<^verbatim>\<open>Number(s)\<close> and \<^verbatim>\<open>isNaN\<close>\<close>

text \<open>
  \<^verbatim>\<open>Number(s)\<close> is NaN unless \<open>s\<close>, with white space stripped, is empty or a
  numeric literal of the string grammar: a decimal literal with optional sign, fraction
  and exponent, \<open>Infinity\<close> with optional sign, or an unsigned binary, octal or
  hexadecimal integer.
\<close>

definition ExponentPart_opt :: "string \<Rightarrow> bool" where
  "ExponentPart_opt s =
     (case s of
        [] \<Rightarrow> True
      | c # cs \<Rightarrow>
          (c = CHR ''e'' \<or> c = CHR ''E'') \<and>
          (case cs of
             [] \<Rightarrow> False
           | g # gs \<Rightarrow>
               if g = CHR ''+'' \<or> g = CHR ''-'' then gs \<noteq> [] \<and> list_all isDigit gs
               else list_all isDigit cs))"

definition StrUnsignedDecimalLiteral :: "string \<Rightarrow> bool" where
  "StrUnsignedDecimalLiteral s =
     (s = ''Infinity'' \<or>
      (let ip = takeWhile isDigit s; r = dropWhile isDigit s
       in case r of
            [] \<Rightarrow> ip \<noteq> []
          | c # cs \<Rightarrow>
              if c = CHR ''.''
              then (ip \<noteq> [] \<or> takeWhile isDigit cs \<noteq> []) \<and> ExponentPart_opt (dropWhile isDigit cs)
              else ip \<noteq> [] \<and> ExponentPart_opt r))"

definition StrDecimalLiteral :: "string \<Rightarrow> bool" where
  "StrDecimalLiteral s =
     (case s of
        [] \<Rightarrow> False
      | c # cs \<Rightarrow>
          if c = CHR ''+'' \<or> c = CHR ''-'' then StrUnsignedDecimalLiteral cs
          else StrUnsignedDecimalLiteral s)"

definition NonDecimalIntegerLiteral :: "string \<Rightarrow> bool" where
  "NonDecimalIntegerLiteral s =
     (case s of
        z # p # ds \<Rightarrow>
          z = CHR ''0'' \<and> ds \<noteq> [] \<and>
          (if p = CHR ''x'' \<or> p = CHR ''X'' then list_all (\<lambda>c. c \<in> set ''0123456789abcdefABCDEF'') ds
           else if p = CHR ''o'' \<or> p = CHR ''O'' then list_all (\<lambda>c. c \<in> set ''01234567'') ds
           else if p = CHR ''b'' \<or> p = CHR ''B'' then list_all (\<lambda>c. c \<in> set ''01'') ds
           else False)
      | _ \<Rightarrow> False)"

definition Number_isNaN :: "string \<Rightarrow> bool" where
  \<comment> \<open>\<^verbatim>\<open>isNaN(Number(s))\<close>\<close>
  "Number_isNaN s =
     (let t = trim s in t \<noteq> [] \<and> \<not> StrDecimalLiteral t \<and> \<not> NonDecimalIntegerLiteral t)"

subsection \<open>\<^verbatim>\<open>encodeURIComponent\<close>\<close>

definition hex_digits :: string where
  "hex_digits = ''0123456789ABCDEF''"

definition percent :: "nat \<Rightarrow> string" where
  "percent b = [CHR ''%'', hex_digits ! (b div 16 mod 16), hex_digits ! (b mod 16)]"

definition uri_unreserved :: "char \<Rightarrow> bool" where
  "uri_unreserved c = (c \<in> set (upper_az @ lower_az @ decimal_digits @ ''-_.!~*'' @ [CHR 0x27] @ ''()''))"

definition encode_unit :: "char \<Rightarrow> string" where
  \<comment> \<open>a code unit below 128 is one UTF-8 byte, one from 128 to 255 is two\<close>
  "encode_unit c =
     (if uri_unreserved c then [c]
      else let n = of_char c :: nat
           in if n < 128 then percent n else percent (192 + n div 64) @ percent (128 + n mod 64))"

definition encodeURIComponent :: "string \<Rightarrow> string" where
  "encodeURIComponent s = concat (map encode_unit s)"

subsection \<open>\<^verbatim>\<open>parseWSJCSV\<close> (lines 157 to 184)\<close>

record parsed =
  pdate :: string
  pclose :: string

definition row_cols :: "string \<Rightarrow> string list" where
  \<comment> \<open>\<^verbatim>\<open>lines[i].split(",").map(s => s.trim())\<close>\<close>
  "row_cols line = map trim (split_on (CHR '','') line)"

definition row_iso :: "string \<Rightarrow> string option" where
  \<comment> \<open>lines 171 to 175: the date cell \<open>mm/dd/yy\<close> or \<open>mm/dd/yyyy\<close> as \<open>yyyy-mm-dd\<close>;
      \<open>None\<close> when the cell has not exactly three parts\<close>
  "row_iso raw =
     (case split_on (CHR ''/'') raw of
        [mm, dd, yy] \<Rightarrow>
          (let yy = (if length yy = 2 then (if string_gt yy ''50'' then ''19'' else ''20'') @ yy else yy)
           in Some (yy @ ''-'' @ padStart 2 (CHR ''0'') mm @ ''-'' @ padStart 2 (CHR ''0'') dd))
      | _ \<Rightarrow> None)"

definition row_close :: "string \<Rightarrow> string \<Rightarrow> parsed option" where
  \<comment> \<open>lines 178 to 180; \<^verbatim>\<open>close\<close> is never \<^verbatim>\<open>null\<close> there, the row having passed
      the length check of line 168\<close>
  "row_close isoD close =
     (if close = [] \<or> Number_isNaN close then None else Some \<lparr>pdate = isoD, pclose = close\<rparr>)"

definition row_date :: "nat \<Rightarrow> nat \<Rightarrow> string \<Rightarrow> string option" where
  \<comment> \<open>lines 167 to 175: the normalised date of a data row; \<open>None\<close> for a row that
      the loop skips (too few cells, or a date cell without three parts)\<close>
  "row_date iDate iClose line =
     (let cols = row_cols line
      in if length cols < max iDate iClose + 1 then None else row_iso (cols ! iDate))"

fun scan_rows :: "nat \<Rightarrow> nat \<Rightarrow> string \<Rightarrow> string list \<Rightarrow> parsed option" where
  "scan_rows iDate iClose isoWanted [] = None"
| "scan_rows iDate iClose isoWanted (line # rest) =
     (case row_date iDate iClose line of
        None \<Rightarrow> scan_rows iDate iClose isoWanted rest
      | Some isoD \<Rightarrow>
          if isoD = isoWanted then row_close isoD (row_cols line ! iClose)
          else scan_rows iDate iClose isoWanted rest)"

definition header_columns :: "string \<Rightarrow> (nat \<times> nat) option" where
  \<comment> \<open>lines 161 to 164: the positions of the columns named \<open>date\<close> and \<open>close\<close>\<close>
  "header_columns first =
     (let header = map (\<lambda>s. toLowerCase (trim s)) (split_on (CHR '','') first)
      in case (indexOf header ''date'', indexOf header ''close'') of
           (Some iDate, Some iClose) \<Rightarrow> Some (iDate, iClose)
         | _ \<Rightarrow> None)"

definition parseWSJCSV :: "string \<Rightarrow> string \<Rightarrow> parsed option" where
  "parseWSJCSV csv isoWanted =
     (if csv = [] \<or> CHR 0x0A \<notin> set csv then None
      else case split_lines (trim csv) of
        [] \<Rightarrow> None
      | first # rows \<Rightarrow>
          (case header_columns first of
             None \<Rightarrow> None
           | Some (iDate, iClose) \<Rightarrow> scan_rows iDate iClose isoWanted rows))"

subsection \<open>\<^verbatim>\<open>fetchWSJ\<close> (lines 110 to 155)\<close>

text \<open>
  What the call of \<^verbatim>\<open>fetch\<close> for one symbol can bring: the promise rejects with a
  thrown value (a network failure), or it resolves to a response with a status code,
  whose body is then read as text, which can fail in turn. The request headers (user
  agent, referer, cookie of the process environment) only influence what the upstream
  answers, which is a parameter here.
\<close>

record thrown =
  message :: string  \<comment> \<open>\<^verbatim>\<open>e.message\<close>, empty when absent\<close>
  shown :: string  \<comment> \<open>\<^verbatim>\<open>String(e)\<close>\<close>

definition error_text :: "thrown \<Rightarrow> string" where
  \<comment> \<open>\<^verbatim>\<open>String(e?.message || e)\<close>\<close>
  "error_text e = (if message e \<noteq> [] then message e else shown e)"

datatype body_read = Text string | TextFailed thrown

datatype fetch_outcome = Rejected thrown | Response nat body_read

datatype status = Ok | Error

record symbol_result =
  symbol :: string
  status :: status
  close :: "string option"
  date :: "string option"
  error :: "string option"
  source_url :: "string option"

definition failed :: "string \<Rightarrow> string \<Rightarrow> string option \<Rightarrow> symbol_result" where
  "failed symb msg url =
     \<lparr>symbol = symb, status = Error, close = None, date = None, error = Some msg, source_url = url\<rparr>"

definition normalise :: "string \<Rightarrow> string" where
  \<comment> \<open>\<^verbatim>\<open>String(s).toUpperCase().trim()\<close>\<close>
  "normalise s = trim (toUpperCase s)"

definition quote_url :: "string \<Rightarrow> string \<Rightarrow> string" where
  "quote_url symb mdy =
     ''https://www.wsj.com/market-data/quotes/FX/'' @ symb @ ''/historical-prices/download''
     @ ''?startDate='' @ encodeURIComponent mdy @ ''&endDate='' @ encodeURIComponent mdy
     @ ''&num_rows=50''"

definition fetchWSJ ::
  "(string \<Rightarrow> fetch_outcome) \<Rightarrow> string \<Rightarrow> string \<Rightarrow> string \<Rightarrow> symbol_result \<times> string list" where
  \<comment> \<open>the result, and the URLs requested from the upstream on the way\<close>
  "fetchWSJ fetch symbolRaw mdy isoD =
     (let symb = normalise symbolRaw
      in if \<not> matches_symbol symb then (failed symb ''invalid symbol'' None, [])
         else if \<not> endsWith symb ''USD''
         then (failed symb ''not XXXUSD (reciprocals disabled)'' None, [])
         else
           (let url = quote_url symb mdy
            in (case fetch url of
                  Rejected e \<Rightarrow> failed symb (error_text e) (Some url)
                | Response code body \<Rightarrow>
                    if \<not> (200 \<le> code \<and> code \<le> 299)
                    then failed symb (''HTTP '' @ String_of_nat code) (Some url)
                    else (case body of
                            TextFailed e \<Rightarrow> failed symb (error_text e) (Some url)
                          | Text csv \<Rightarrow>
                              (case parseWSJCSV csv isoD of
                                 None \<Rightarrow> failed symb ''row not found'' (Some url)
                               | Some p \<Rightarrow>
                                   \<lparr>symbol = symb, status = Ok, close = Some (pclose p),
                                    date = Some (pdate p), error = None,
                                    source_url = Some url\<rparr>)),
                [url])))"

section \<open>The request handler (lines 11 to 93)\<close>

definition DEFAULT_SEED :: "string list" where
  "DEFAULT_SEED =
     [''EURUSD'', ''GBPUSD'', ''AUDUSD'', ''NZDUSD'', ''JPYUSD'', ''CADUSD'', ''CHFUSD'', ''SEKUSD'',
      ''NOKUSD'', ''DKKUSD'', ''MXNUSD'', ''BRLUSD'', ''CNYUSD'', ''KRWUSD'', ''INRUSD'', ''ZARUSD'',
      ''TRYUSD'', ''PLNUSD'', ''HUFUSD'', ''CZKUSD'', ''ILSUSD'', ''AEDUSD'', ''SARUSD'', ''CLPUSD'',
      ''COPUSD'', ''PENUSD'', ''ARSUSD'', ''THBUSD'', ''PHPUSD'', ''MYRUSD'', ''IDRUSD'', ''TWDUSD'',
      ''SGDUSD'', ''HKDUSD'', ''RONUSD'', ''BGNUSD'', ''QARUSD'', ''MADUSD'', ''AOAUSD'', ''VNDUSD'',
      ''GHSUSD'', ''NGNUSD'']"

text \<open>
  \<^verbatim>\<open>COVERAGE[coverage]\<close> reads a property of an object literal: one of its three own
  keys, or a member inherited from \<^verbatim>\<open>Object.prototype\<close> (a function or an object,
  truthy and not an array), or \<^verbatim>\<open>undefined\<close>.
\<close>

datatype coverage_entry = Preset "string list" | Inherited

definition object_prototype_keys :: "string list" where
  "object_prototype_keys =
     [''constructor'', ''__proto__'', ''hasOwnProperty'', ''isPrototypeOf'',
      ''propertyIsEnumerable'', ''toLocaleString'', ''toString'', ''valueOf'',
      ''__defineGetter__'', ''__defineSetter__'', ''__lookupGetter__'', ''__lookupSetter__'']"

definition COVERAGE :: "string \<Rightarrow> coverage_entry option" where
  "COVERAGE key =
     (if key = ''majors''
      then Some (Preset [''EURUSD'', ''GBPUSD'', ''JPYUSD'', ''AUDUSD'', ''NZDUSD'', ''CADUSD'',
                         ''CHFUSD'', ''CNYUSD'', ''SEKUSD'', ''NOKUSD''])
      else if key = ''extended'' then Some (Preset (take 30 DEFAULT_SEED))
      else if key = ''full'' then Some (Preset DEFAULT_SEED)
      else if key \<in> set object_prototype_keys then Some Inherited
      else None)"

definition parseSymbolList :: "string option \<Rightarrow> string list option" where
  "parseSymbolList s =
     (case s of
        None \<Rightarrow> None
      | Some v \<Rightarrow>
          if v = [] then None
          else Some (filter (\<lambda>x. x \<noteq> []) (map trim (split_on (CHR '','') v))))"

definition clean :: "string list \<Rightarrow> string list" where
  "clean arr = filter (\<lambda>x. x \<noteq> []) (map trim arr)"

text \<open>
  The request, as the interface of the header comment types it: the query parameters are
  strings, the JSON body carries a string \<open>date\<close>, a string \<open>coverage\<close> and an
  array of strings \<open>symbols\<close>. A field is \<open>None\<close> when it is absent; \<open>b_symbols\<close>
  is \<open>None\<close> also when \<^verbatim>\<open>symbols\<close> is not an array.
\<close>

record query =
  q_date :: "string option"
  q_coverage :: "string option"
  q_symbols :: "string option"

record body =
  b_date :: "string option"
  b_coverage :: "string option"
  b_symbols :: "string list option"

record request =
  http_method :: string  \<comment> \<open>\<^verbatim>\<open>req.method\<close>\<close>
  query :: query
  body :: "body option"

text \<open>What the variable \<^verbatim>\<open>symbols\<close> holds after line 36 or 41.\<close>

datatype symbols = Array "string list" | NotArray

definition coverage_name :: "string option \<Rightarrow> string" where
  \<comment> \<open>\<^verbatim>\<open>(coverage || "full").toLowerCase()\<close>\<close>
  "coverage_name c = toLowerCase (case c of None \<Rightarrow> ''full'' | Some v \<Rightarrow> if v = [] then ''full'' else v)"

definition choose_symbols :: "string list option \<Rightarrow> string \<Rightarrow> symbols" where
  \<comment> \<open>\<^verbatim>\<open>if (!symbols || symbols.length === 0) symbols = COVERAGE[coverage] || COVERAGE.full\<close>\<close>
  "choose_symbols given coverage =
     (case given of
        Some (x # xs) \<Rightarrow> Array (x # xs)
      | _ \<Rightarrow>
          (case COVERAGE coverage of
             Some (Preset l) \<Rightarrow> Array l
           | Some Inherited \<Rightarrow> NotArray
           | None \<Rightarrow> Array DEFAULT_SEED))"

definition parse_input :: "request \<Rightarrow> (string option \<times> symbols) option" where
  \<comment> \<open>lines 32 to 44: the date and the symbols, or \<open>None\<close> for another method\<close>
  "parse_input req =
     (if http_method req = ''GET''
      then Some (q_date (query req),
                 choose_symbols (parseSymbolList (q_symbols (query req)))
                   (coverage_name (q_coverage (query req))))
      else if http_method req = ''POST''
      then Some (Option.bind (body req) b_date,
                 choose_symbols (map_option clean (Option.bind (body req) b_symbols))
                   (coverage_name (Option.bind (body req) b_coverage)))
      else None)"

subsection \<open>The worker pool (lines 54 to 72)\<close>

text \<open>
  A task is a symbol of the queue with its position in the request. \<open>F\<close> gives, for a
  task, the result of \<^verbatim>\<open>fetchWSJ\<close> and the URLs it requests. Starting a task
  (\<^verbatim>\<open>runOne\<close>) sends its request at once and adds its promise to \<^verbatim>\<open>running\<close>;
  when the task completes, its result is pushed onto \<^verbatim>\<open>results\<close> and the promise
  leaves \<^verbatim>\<open>running\<close>.
\<close>

type_synonym task = "nat \<times> string"

record pool =
  queue :: "task list"
  running :: "task list"
  results :: "symbol_result list"
  fetched :: "string list"

definition CONCURRENCY :: nat where
  "CONCURRENCY = 6"

definition launch :: "(task \<Rightarrow> symbol_result \<times> string list) \<Rightarrow> task \<Rightarrow> pool \<Rightarrow> pool" where
  "launch F t p = p\<lparr>queue := tl (queue p), running := running p @ [t], fetched := fetched p @ snd (F t)\<rparr>"

definition settle :: "(task \<Rightarrow> symbol_result \<times> string list) \<Rightarrow> nat \<Rightarrow> pool \<Rightarrow> pool" where
  \<comment> \<open>the running task at position \<open>i\<close> completes\<close>
  "settle F i p =
     p\<lparr>running := take i (running p) @ drop (Suc i) (running p),
       results := results p @ [fst (F (running p ! i))]\<rparr>"

text \<open>
  The steps the loop can take: start the head of the queue while fewer than
  \<open>CONCURRENCY\<close> tasks are running, or see a running task complete.
\<close>

inductive pool_step :: "(task \<Rightarrow> symbol_result \<times> string list) \<Rightarrow> pool \<Rightarrow> pool \<Rightarrow> bool"
  for F :: "task \<Rightarrow> symbol_result \<times> string list" where
  start: "queue p = t # q \<Longrightarrow> length (running p) < CONCURRENCY \<Longrightarrow> pool_step F p (launch F t p)"
| complete: "i < length (running p) \<Longrightarrow> pool_step F p (settle F i p)"

text \<open>
  The loop itself, as a function of the order in which the tasks complete. The inner
  loop (lines 66 to 70) is \<open>refill\<close>. At \<^verbatim>\<open>await Promise.race(running)\<close> at least one
  running task completes before the loop goes on, and more can: an entry \<open>(i, more)\<close>
  of the schedule names the position in \<^verbatim>\<open>running\<close> of the first task to complete and
  of those that follow it before the loop resumes (positions are taken modulo the number
  of running tasks). When the schedule is used up, the oldest running task completes.
\<close>

type_synonym schedule = "(nat \<times> nat list) list"

function refill :: "(task \<Rightarrow> symbol_result \<times> string list) \<Rightarrow> pool \<Rightarrow> pool" where
  "refill F p =
     (case queue p of
        [] \<Rightarrow> p
      | t # q \<Rightarrow> if length (running p) < CONCURRENCY then refill F (launch F t p) else p)"
  by pat_completeness auto
termination
  by (relation "measure (\<lambda>(F, p). length (queue p))") (auto simp: launch_def)

declare refill.simps [simp del]

definition settle_pick :: "(task \<Rightarrow> symbol_result \<times> string list) \<Rightarrow> nat \<Rightarrow> pool \<Rightarrow> pool" where
  "settle_pick F i p = (if running p = [] then p else settle F (i mod length (running p)) p)"

definition await_race :: "(task \<Rightarrow> symbol_result \<times> string list) \<Rightarrow> nat \<times> nat list \<Rightarrow> pool \<Rightarrow> pool" where
  "await_race F ev p = fold (settle_pick F) (snd ev) (settle_pick F (fst ev) p)"

lemma refill_running: "queue p \<noteq> [] \<or> running p \<noteq> [] \<Longrightarrow> running (refill F p) \<noteq> []"
proof (induction F p rule: refill.induct)
  case (1 F p)
  show ?case
  proof (cases "queue p")
    case Nil
    with 1 show ?thesis by (simp add: refill.simps)
  next
    case (Cons t q)
    show ?thesis
    proof (cases "length (running p) < CONCURRENCY")
      case True
      have "running (refill F (launch F t p)) \<noteq> []"
        using 1(1) [OF Cons True] by (simp add: launch_def)
      with Cons True show ?thesis by (simp add: refill.simps [of F p])
    next
      case False
      then have "running p \<noteq> []" by (auto simp: CONCURRENCY_def)
      with Cons False show ?thesis by (simp add: refill.simps [of F p])
    qed
  qed
qed

lemma refill_size: "length (queue (refill F p)) + length (running (refill F p)) = length (queue p) + length (running p)"
proof (induction F p rule: refill.induct)
  case (1 F p)
  show ?case
  proof (cases "queue p")
    case Nil
    then show ?thesis by (simp add: refill.simps)
  next
    case (Cons t q)
    show ?thesis
    proof (cases "length (running p) < CONCURRENCY")
      case True
      with Cons 1 [OF Cons True] show ?thesis
        by (simp add: refill.simps [of F p] launch_def)
    next
      case False
      with Cons show ?thesis by (simp add: refill.simps [of F p])
    qed
  qed
qed

lemma settle_size:
  "i < length (running p) \<Longrightarrow> Suc (length (running (settle F i p))) = length (running p)"
  by (simp add: settle_def)

lemma settle_queue: "queue (settle F i p) = queue p"
  by (simp add: settle_def)

lemma settle_pick_size_less:
  assumes "running p \<noteq> []"
  shows "length (queue (settle_pick F i p)) + length (running (settle_pick F i p))
           < length (queue p) + length (running p)"
proof -
  have "i mod length (running p) < length (running p)"
    using assms by simp
  from settle_size [OF this, of F] show ?thesis
    using assms by (simp add: settle_pick_def settle_queue)
qed

lemma settle_pick_size:
  "length (queue (settle_pick F i p)) + length (running (settle_pick F i p))
     \<le> length (queue p) + length (running p)"
proof (cases "running p = []")
  case True
  then show ?thesis by (simp add: settle_pick_def)
next
  case False
  from settle_pick_size_less [OF this, of F i] show ?thesis by simp
qed

lemma fold_settle_pick_size:
  "length (queue (fold (settle_pick F) picks p)) + length (running (fold (settle_pick F) picks p))
     \<le> length (queue p) + length (running p)"
proof (induction picks arbitrary: p)
  case Nil
  show ?case by simp
next
  case (Cons i picks)
  show ?case
    using Cons [of "settle_pick F i p"] settle_pick_size [of F i p] by simp
qed

lemma await_race_size_less:
  "running p \<noteq> [] \<Longrightarrow>
     length (queue (await_race F ev p)) + length (running (await_race F ev p))
       < length (queue p) + length (running p)"
  unfolding await_race_def
  using fold_settle_pick_size [of F "snd ev" "settle_pick F (fst ev) p"]
        settle_pick_size_less [of p F "fst ev"]
  by linarith

function run_pool :: "(task \<Rightarrow> symbol_result \<times> string list) \<Rightarrow> schedule \<Rightarrow> pool \<Rightarrow> pool" where
  "run_pool F sched p =
     (if queue p = [] \<and> running p = [] then p
      else run_pool F (tl sched)
             (await_race F (case sched of [] \<Rightarrow> (0, []) | ev # _ \<Rightarrow> ev) (refill F p)))"
  by pat_completeness auto
termination
proof (relation "measure (\<lambda>(F, sched, p). length (queue p) + length (running p))")
  fix F :: "task \<Rightarrow> symbol_result \<times> string list" and sched :: schedule and p :: pool
  assume "\<not> (queue p = [] \<and> running p = [])"
  then have "running (refill F p) \<noteq> []"
    using refill_running [of p F] by blast
  then show "((F, tl sched, await_race F (case sched of [] \<Rightarrow> (0, []) | ev # _ \<Rightarrow> ev) (refill F p)),
              (F, sched, p))
             \<in> measure (\<lambda>(F, sched, p). length (queue p) + length (running p))"
    using await_race_size_less [of "refill F p" F] refill_size [of F p] by simp
qed simp

declare run_pool.simps [simp del]

subsection \<open>Sorting and the response\<close>

text \<open>
  \<^verbatim>\<open>Array.prototype.sort\<close> with a comparator is a stable sort; it is modelled as the
  stable insertion sort. \<^verbatim>\<open>localeCompare\<close> is the collation of the host's locale, a
  parameter of the model.
\<close>

fun insert_by :: "('a \<Rightarrow> 'a \<Rightarrow> int) \<Rightarrow> 'a \<Rightarrow> 'a list \<Rightarrow> 'a list" where
  "insert_by cmp x [] = [x]"
| "insert_by cmp x (y # ys) = (if cmp x y \<le> 0 then x # y # ys else y # insert_by cmp x ys)"

definition Array_sort :: "('a \<Rightarrow> 'a \<Rightarrow> int) \<Rightarrow> 'a list \<Rightarrow> 'a list" where
  "Array_sort cmp xs = foldr (insert_by cmp) xs []"

record host =
  tzOffset :: int  \<comment> \<open>minutes east of UTC\<close>
  localeCompare :: "string \<Rightarrow> string \<Rightarrow> int"

record payload =
  resolvedDate :: string
  total :: nat
  ok :: nat
  fail :: nat
  items :: "symbol_result list"

datatype content = ErrorMessage string | Uncaught exn | Batch payload

record response =
  code :: nat
  cache_control :: "string option"
  content :: content

definition reply :: "nat \<Rightarrow> content \<Rightarrow> response" where
  \<comment> \<open>\<^verbatim>\<open>res.status(code).json(...)\<close> with no header set\<close>
  "reply c b = \<lparr>code = c, cache_control = None, content = b\<rparr>"

definition run_symbol ::
  "(nat \<Rightarrow> string \<Rightarrow> fetch_outcome) \<Rightarrow> string \<Rightarrow> string \<Rightarrow> task \<Rightarrow> symbol_result \<times> string list" where
  \<comment> \<open>\<^verbatim>\<open>runOne\<close>: \<open>upstream i\<close> answers the request made for the symbol at position \<open>i\<close>\<close>
  "run_symbol upstream mdy resolvedISO t = fetchWSJ (upstream (fst t)) (snd t) mdy resolvedISO"

definition handler ::
  "host \<Rightarrow> (nat \<Rightarrow> string \<Rightarrow> fetch_outcome) \<Rightarrow> schedule \<Rightarrow> request \<Rightarrow> response \<times> string list" where
  \<comment> \<open>the response, and the URLs requested from the upstream, in the order of the requests\<close>
  "handler h upstream sched req =
     (case parse_input req of
        None \<Rightarrow> (reply 405 (ErrorMessage ''Use GET or POST''), [])
      | Some (date_given, syms) \<Rightarrow>
          (case date_given of
             None \<Rightarrow> (reply 400 (ErrorMessage ''date must be YYYY-MM-DD''), [])
           | Some d \<Rightarrow>
               if d = [] \<or> \<not> matches_date d
               then (reply 400 (ErrorMessage ''date must be YYYY-MM-DD''), [])
               else
                 (case priorBizIfWeekend (tzOffset h) d of
                    Inl e \<Rightarrow> (reply 500 (Uncaught e), [])
                  | Inr resolvedISO \<Rightarrow>
                      (case syms of
                         NotArray \<Rightarrow> (reply 500 (Uncaught TypeError), [])
                       | Array requested \<Rightarrow>
                           (let mdy = toMMDDYYYY resolvedISO;
                                p = run_pool (run_symbol upstream mdy resolvedISO) sched
                                      \<lparr>queue = enumerate 0 (map normalise requested), running = [],
                                       results = [], fetched = []\<rparr>
                            in (\<lparr>code = 200, cache_control = Some ''no-store'',
                                 content = Batch
                                   \<lparr>resolvedDate = resolvedISO,
                                    total = length requested,
                                    ok = length (filter (\<lambda>r. status r = Ok) (results p)),
                                    fail = length (filter (\<lambda>r. status r \<noteq> Ok) (results p)),
                                    items = Array_sort (\<lambda>a b. localeCompare h (symbol a) (symbol b))
                                              (results p)\<rparr>\<rparr>,
                                fetched p))))))"

section \<open>Symbol validation\<close>

lemma normalise_examples:
  "normalise ''EURUSD'' = ''EURUSD''" "normalise ''USDEUR'' = ''USDEUR''"
  "normalise ''EU'' = ''EU''" "normalise ''eurusd'' = ''EURUSD''"
  by code_simp+

lemma symbol_examples:
  "matches_symbol ''EURUSD''" "endsWith ''EURUSD'' ''USD''"
  "matches_symbol ''USDEUR''" "\<not> endsWith ''USDEUR'' ''USD''"
  "\<not> matches_symbol ''EU''"
  by code_simp+

lemma fetchWSJ_invalid:
  "\<not> matches_symbol (normalise raw) \<Longrightarrow>
     fetchWSJ fetch raw mdy isoD = (failed (normalise raw) ''invalid symbol'' None, [])"
  by (simp add: fetchWSJ_def)

lemma fetchWSJ_reciprocal:
  "matches_symbol (normalise raw) \<Longrightarrow> \<not> endsWith (normalise raw) ''USD'' \<Longrightarrow>
     fetchWSJ fetch raw mdy isoD =
       (failed (normalise raw) ''not XXXUSD (reciprocals disabled)'' None, [])"
  by (simp add: fetchWSJ_def)

lemma fetchWSJ_accepted:
  "matches_symbol (normalise raw) \<Longrightarrow> endsWith (normalise raw) ''USD'' \<Longrightarrow>
     snd (fetchWSJ fetch raw mdy isoD) = [quote_url (normalise raw) mdy]"
  by (simp add: fetchWSJ_def Let_def)

lemma fetchWSJ_symbol: "symbol (fst (fetchWSJ fetch raw mdy isoD)) = normalise raw"
  by (simp add: fetchWSJ_def Let_def failed_def
           split: fetch_outcome.splits body_read.splits option.splits)



section \<open>Calendar arithmetic\<close>

lemma DayFromYear_add: "DayFromYear y + 365 * int k \<le> DayFromYear (y + int k)"
proof (induction k)
  case 0
  show ?case by simp
next
  case (Suc k)
  have e: "y + int (Suc k) = y + int k + 1"
    by simp
  have "DayFromYear (y + int (Suc k)) = DayFromYear (y + int k) + DaysInYear (y + int k)"
    unfolding e by (rule DayFromYear_Suc)
  with Suc DaysInYear_pos [of "y + int k"] show ?case by simp
qed

lemma DayFromYear_diff: "y \<le> y' \<Longrightarrow> DayFromYear y + 365 * (y' - y) \<le> DayFromYear y'"
  using DayFromYear_add [of y "nat (y' - y)"] by simp

lemma DayFromYear_mono: "y \<le> y' \<Longrightarrow> DayFromYear y \<le> DayFromYear y'"
  using DayFromYear_diff [of y y'] by simp

lemma DayFromYear_less: "y < y' \<Longrightarrow> DayFromYear y < DayFromYear y'"
  using DayFromYear_diff [of y y'] by simp

lemma year_down_le: "DayFromYear (year_down d y) \<le> d"
proof (induction d y rule: year_down.induct)
  case (1 d y)
  then show ?case
    by (cases "d < DayFromYear y") (simp_all add: year_down.simps [of d y])
qed

lemma year_up_bounds:
  "DayFromYear y \<le> d \<Longrightarrow>
     DayFromYear (year_up d y) \<le> d \<and> d < DayFromYear (year_up d y + 1)"
proof (induction d y rule: year_up.induct)
  case (1 d y)
  then show ?case
    by (cases "DayFromYear (y + 1) \<le> d") (simp_all add: year_up.simps [of d y])
qed

lemma YearFromDay_bounds:
  "DayFromYear (YearFromDay d) \<le> d \<and> d < DayFromYear (YearFromDay d + 1)"
  unfolding YearFromDay_def by (rule year_up_bounds) (rule year_down_le)

lemma YearFromDay_unique:
  assumes "DayFromYear y \<le> d" and "d < DayFromYear (y + 1)"
  shows "YearFromDay d = y"
proof (rule ccontr)
  assume ne: "YearFromDay d \<noteq> y"
  show False
  proof (cases "YearFromDay d < y")
    case True
    then have "DayFromYear (YearFromDay d + 1) \<le> DayFromYear y"
      by (intro DayFromYear_mono) simp
    with YearFromDay_bounds [of d] assms show False by simp
  next
    case False
    with ne have "DayFromYear (y + 1) \<le> DayFromYear (YearFromDay d)"
      by (intro DayFromYear_mono) simp
    with YearFromDay_bounds [of d] assms show False by simp
  qed
qed

lemma Day_of_day: "0 \<le> r \<Longrightarrow> r < msPerDay \<Longrightarrow> Day (n * msPerDay + r) = n"
  by (simp add: Day_def msPerDay_def div_pos_pos_trivial)

lemma TimeWithinDay_of_day: "0 \<le> r \<Longrightarrow> r < msPerDay \<Longrightarrow> TimeWithinDay (n * msPerDay + r) = r"
  by (simp add: TimeWithinDay_def msPerDay_def mod_pos_pos_trivial)

lemma MonthFromDay_range: "0 \<le> MonthFromDay l k \<and> MonthFromDay l k \<le> 11"
  by (simp add: MonthFromDay_def)

lemma MakeDay_fields:
  "MakeDay (YearFromTime t) (MonthFromTime t) (DateFromTime t + j) = Day t + j"
proof -
  have m: "0 \<le> MonthFromTime t" "MonthFromTime t \<le> 11"
    using MonthFromDay_range by (simp_all add: MonthFromTime_def)
  then have "MonthFromTime t div 12 = 0" "MonthFromTime t mod 12 = MonthFromTime t"
    by simp_all
  then show ?thesis
    by (simp add: MakeDay_def DateFromTime_def DayWithinYear_def InLeapYear_def)
qed

definition DaysInMonth :: "int \<Rightarrow> int \<Rightarrow> int" where
  \<comment> \<open>the length of month \<open>m\<close> (1 for January) in year \<open>y\<close>\<close>
  "DaysInMonth y m =
     (if m = 2 then 28 + leap_day y else if m = 4 \<or> m = 6 \<or> m = 9 \<or> m = 11 then 30 else 31)"

lemma leap_day_cases: "leap_day y = 0 \<or> leap_day y = 1"
  by (simp add: leap_day_def)

lemma DaysInYear_leap: "DaysInYear y = 365 + leap_day y"
  by (simp add: leap_day_def DaysInYear_def)

lemma month_cases:
  "1 \<le> (m::int) \<Longrightarrow> m \<le> 12 \<Longrightarrow>
     m = 1 \<or> m = 2 \<or> m = 3 \<or> m = 4 \<or> m = 5 \<or> m = 6 \<or> m = 7 \<or> m = 8 \<or> m = 9 \<or> m = 10 \<or> m = 11 \<or> m = 12"
  by arith

lemma day_in_year_bound:
  assumes "1 \<le> m" "m \<le> 12" "1 \<le> d" "d \<le> 31" "0 \<le> l"
  shows "0 \<le> DaysBeforeMonth l (m - 1) + d - 1 \<and> DaysBeforeMonth l (m - 1) + d - 1 \<le> 364 + l"
  using month_cases [OF assms(1,2)] assms(3,4,5)
  by (elim disjE; simp add: DaysBeforeMonth_def)

lemma MonthFromDay_inverse:
  assumes "1 \<le> m" "m \<le> 12" "1 \<le> d" "d \<le> DaysInMonth y m"
  shows "MonthFromDay (leap_day y) (DaysBeforeMonth (leap_day y) (m - 1) + d - 1) = m - 1"
  using month_cases [OF assms(1,2)] assms(3,4) leap_day_cases [of y]
  by (elim disjE; simp add: DaysBeforeMonth_def MonthFromDay_def DaysInMonth_def)

lemma MakeDay_month: "1 \<le> m \<Longrightarrow> m \<le> 12 \<Longrightarrow>
    MakeDay y (m - 1) d = DayFromYear y + DaysBeforeMonth (leap_day y) (m - 1) + d - 1"
  by (simp add: MakeDay_def)

lemma MakeDay_year:
  assumes "1 \<le> m" "m \<le> 12" "1 \<le> d" "d \<le> 31"
  shows "DayFromYear y \<le> MakeDay y (m - 1) d \<and> MakeDay y (m - 1) d < DayFromYear (y + 1)"
proof -
  have "0 \<le> leap_day y"
    using leap_day_cases [of y] by auto
  from day_in_year_bound [OF assms this] show ?thesis
    by (simp add: MakeDay_month [OF assms(1,2)] DayFromYear_Suc DaysInYear_leap)
qed

lemma YearFromDay_MakeDay:
  assumes "1 \<le> m" "m \<le> 12" "1 \<le> d" "d \<le> 31"
  shows "YearFromDay (MakeDay y (m - 1) d) = y"
  using MakeDay_year [OF assms] by (intro YearFromDay_unique) simp_all

section \<open>Decimal digits\<close>

lemma isDigit_cases:
  "isDigit c \<longleftrightarrow> c = CHR ''0'' \<or> c = CHR ''1'' \<or> c = CHR ''2'' \<or> c = CHR ''3'' \<or> c = CHR ''4''
     \<or> c = CHR ''5'' \<or> c = CHR ''6'' \<or> c = CHR ''7'' \<or> c = CHR ''8'' \<or> c = CHR ''9''"
  by (simp add: isDigit_def decimal_digits_def)

lemma below_ten:
  "(k::nat) < 10 \<Longrightarrow> k = 0 \<or> k = 1 \<or> k = 2 \<or> k = 3 \<or> k = 4 \<or> k = 5 \<or> k = 6 \<or> k = 7 \<or> k = 8 \<or> k = 9"
  by arith

lemma isDigit_digit_char: "isDigit (digit_char v)"
proof -
  have "v mod 10 < 10" by simp
  from below_ten [OF this] show ?thesis
    by (elim disjE; simp add: digit_char_def decimal_digits_def isDigit_def)
qed

lemma digit_val_digit_char: "digit_val (digit_char v) = v mod 10"
proof -
  have "v mod 10 < 10" by simp
  from below_ten [OF this] show ?thesis
    by (elim disjE; simp add: digit_char_def decimal_digits_def digit_val_def)
qed

lemma digit_char_digit_val: "isDigit c \<Longrightarrow> digit_char (digit_val c) = c"
  unfolding isDigit_cases
  by (elim disjE; simp add: digit_val_def decimal_digits_def digit_char_def)

lemma digit_val_less: "digit_val c < 10"
  by (auto simp: digit_val_def decimal_digits_def split: option.splits)

lemma length_dec: "length (dec w n) = w"
  by (induction w arbitrary: n) simp_all

lemma isDigit_dec: "list_all isDigit (dec w n)"
  by (induction w arbitrary: n) (simp_all add: isDigit_digit_char)

lemma digits_val_snoc: "digits_val (ds @ [c]) = 10 * digits_val ds + digit_val c"
  by (simp add: digits_val_def)

lemma digits_val_dec: "digits_val (dec w n) = n mod 10 ^ w"
proof (induction w arbitrary: n)
  case 0
  show ?case by (simp add: digits_val_def)
next
  case (Suc w)
  have "digits_val (dec (Suc w) n) = 10 * ((n div 10) mod 10 ^ w) + n mod 10"
    by (simp add: digits_val_snoc Suc digit_val_digit_char)
  also have "\<dots> = n mod 10 ^ Suc w"
    by (simp add: mod_mult2_eq)
  finally show ?case .
qed

lemma dec_digits_val: "list_all isDigit ds \<Longrightarrow> dec (length ds) (digits_val ds) = ds"
proof (induction ds rule: rev_induct)
  case Nil
  show ?case by simp
next
  case (snoc c ds)
  then have c: "isDigit c" and ds: "list_all isDigit ds"
    by simp_all
  have "(10 * digits_val ds + digit_val c) div 10 = digits_val ds"
    using digit_val_less [of c] by simp
  moreover have "digit_char (10 * digits_val ds + digit_val c) = c"
    using digit_char_digit_val [OF c] by (simp add: digit_char_def)
  ultimately show ?case
    using snoc.IH [OF ds] by (simp add: digits_val_snoc)
qed

lemma takeWhile_digits:
  "list_all isDigit ds \<Longrightarrow> \<not> isDigit c \<Longrightarrow> takeWhile isDigit (ds @ c # rest) = ds"
  by (induction ds) simp_all

lemma dropWhile_digits:
  "list_all isDigit ds \<Longrightarrow> \<not> isDigit c \<Longrightarrow> dropWhile isDigit (ds @ c # rest) = c # rest"
  by (induction ds) simp_all

lemma fixed_number_dec:
  "\<not> isDigit c \<Longrightarrow> n < 10 ^ w \<Longrightarrow> fixed_number w (dec w n @ c # rest) = Some (n, c # rest)"
  by (simp add: fixed_number_def takeWhile_digits dropWhile_digits isDigit_dec length_dec
        digits_val_dec Let_def)

section \<open>The date resolver on a calendar date\<close>

definition start_of_day :: "int \<Rightarrow> int" where
  \<comment> \<open>midnight at UTC-4 of day number \<open>n\<close>, as a time value\<close>
  "start_of_day n = n * msPerDay + 4 * msPerHour"

definition local_shift :: "int \<Rightarrow> int" where
  \<comment> \<open>how many days the host's local date is ahead of the date at UTC-4, at that midnight\<close>
  "local_shift tz = (4 * msPerHour + tz * msPerMinute) div msPerDay"

definition rollback :: "int \<Rightarrow> int" where
  \<comment> \<open>the days that lines 98 and 99 subtract for a weekday\<close>
  "rollback wd = (if wd = 6 then 1 else if wd = 0 then 2 else 0)"

definition iso_date :: "int \<times> int \<times> int \<Rightarrow> string" where
  \<comment> \<open>year, month and day as \<open>YYYY-MM-DD\<close>\<close>
  "iso_date ymd = (case ymd of (y, m, d) \<Rightarrow> iso_year y @ ''-'' @ pad_num 2 m @ ''-'' @ pad_num 2 d)"

definition civil_of_day :: "int \<Rightarrow> int \<times> int \<times> int" where
  "civil_of_day n =
     (let t = n * msPerDay in (YearFromTime t, MonthFromTime t + 1, DateFromTime t))"

lemma Day_start: "Day (start_of_day n) = n"
  unfolding start_of_day_def by (rule Day_of_day) (simp_all add: msPerDay_def msPerHour_def)

lemma Day_times: "Day (n * msPerDay) = n"
  using Day_of_day [of 0 n] by (simp add: msPerDay_def)

lemma Day_local: "Day (LocalTime tz (start_of_day n)) = n + local_shift tz"
proof -
  have "LocalTime tz (start_of_day n) = (4 * msPerHour + tz * msPerMinute) + n * msPerDay"
    by (simp add: LocalTime_def start_of_day_def)
  then show ?thesis
    by (simp add: Day_def local_shift_def msPerDay_def)
qed

lemma getDay_start:
  "getDay tz (Some (start_of_day n)) = Some ((n + local_shift tz + 4) mod 7)"
  by (simp add: getDay_def WeekDay_def Day_local)

lemma Day_TimeWithinDay: "Day t * msPerDay + TimeWithinDay t = t"
  by (simp add: Day_def TimeWithinDay_def)

lemma setDate_start:
  "setDate tz (Some (start_of_day n)) (map_option (\<lambda>x. x - j) (getDate tz (Some (start_of_day n))))
     = TimeClip (start_of_day (n - j))"
proof -
  define lt where "lt = LocalTime tz (start_of_day n)"
  have md: "MakeDay (YearFromTime lt) (MonthFromTime lt) (DateFromTime lt - j) = Day lt - j"
    using MakeDay_fields [of lt "- j"] by simp
  have "MakeDate (MakeDay (YearFromTime lt) (MonthFromTime lt) (DateFromTime lt - j))
               (TimeWithinDay lt) = (Day lt - j) * msPerDay + TimeWithinDay lt"
    by (simp only: md MakeDate_def)
  also have "\<dots> = lt - j * msPerDay"
    using Day_TimeWithinDay [of lt] by (simp add: algebra_simps)
  finally have "MakeDate (MakeDay (YearFromTime lt) (MonthFromTime lt) (DateFromTime lt - j))
               (TimeWithinDay lt) = lt - j * msPerDay" .
  moreover have "UTC tz (lt - j * msPerDay) = start_of_day (n - j)"
    by (simp add: lt_def UTC_def LocalTime_def start_of_day_def algebra_simps)
  ultimately show ?thesis
    by (simp add: setDate_def getDate_def Let_def lt_def)
qed

lemma TimeClip_start:
  "- 99999999 \<le> n \<Longrightarrow> n \<le> 99999999 \<Longrightarrow> TimeClip (start_of_day n) = Some (start_of_day n)"
  by (simp add: TimeClip_def start_of_day_def msPerDay_def msPerHour_def abs_le_iff)

lemma DayFromYear_0: "DayFromYear 0 = - 719528"
  by (simp add: DayFromYear_def)

lemma DayFromYear_10000: "DayFromYear 10000 = 2932897"
  by (simp add: DayFromYear_def)

lemma MakeDay_range:
  assumes "0 \<le> y" "y \<le> 9999" "1 \<le> m" "m \<le> 12" "1 \<le> d" "d \<le> 31"
  shows "- 719528 \<le> MakeDay y (m - 1) d \<and> MakeDay y (m - 1) d < 2932897"
proof -
  have "DayFromYear 0 \<le> DayFromYear y" "DayFromYear (y + 1) \<le> DayFromYear 10000"
    using assms(1,2) by (simp_all add: DayFromYear_mono)
  with MakeDay_year [OF assms(3-6), of y] show ?thesis
    by (simp add: DayFromYear_0 DayFromYear_10000)
qed

lemma not_digit: "\<not> isDigit (CHR ''-'')" "\<not> isDigit (CHR ''T'')" "\<not> isDigit (CHR ''+'')"
  by (simp_all add: isDigit_def decimal_digits_def)

lemma fixed_number_digits:
  "list_all isDigit ds \<Longrightarrow> \<not> isDigit c \<Longrightarrow>
     fixed_number (length ds) (ds @ c # r) = Some (digits_val ds, c # r)"
  by (simp add: fixed_number_def takeWhile_digits dropWhile_digits)

lemma parse_year_digits:
  assumes "list_all isDigit ds" "length ds = 4" "\<not> isDigit c"
  shows "parse_year (ds @ c # r) = Some (int (digits_val ds), c # r)"
proof -
  from assms(2) obtain x xs where ds: "ds = x # xs"
    by (cases ds) simp_all
  with assms(1) have "isDigit x"
    by simp
  with not_digit have "x \<noteq> CHR ''+''" "x \<noteq> CHR ''-''"
    by auto
  moreover have "fixed_number 4 (ds @ c # r) = Some (digits_val ds, c # r)"
    using fixed_number_digits [OF assms(1,3), of r] assms(2) by simp
  ultimately show ?thesis
    by (simp add: parse_year_def ds)
qed

lemma parse_dash_field_digits:
  assumes "list_all isDigit ds" "length ds = 2" "\<not> isDigit c"
  shows "parse_dash_field hi (CHR ''-'' # ds @ c # r) =
           (if 1 \<le> digits_val ds \<and> digits_val ds \<le> hi then Some (Some (int (digits_val ds), c # r))
            else None)"
  using fixed_number_digits [OF assms(1,3), of r] assms(2)
  by (simp add: parse_dash_field_def)

lemma parse_suffix:
  "parse_hms ''00:00:00-04:00'' = Some ((0, 0, 0), ''-04:00'')"
  "parse_zone ''-04:00'' = Some (- 240)"
  by (simp_all add: parse_hms_def parse_zone_def fixed_number_def expect_def isDigit_def
        decimal_digits_def digits_val_def digit_val_def)

lemma iso_date_digits:
  assumes "0 \<le> y" "y \<le> 9999"
  shows "iso_date (y, m, d) = dec 4 (nat y) @ CHR ''-'' # dec 2 (nat m) @ CHR ''-'' # dec 2 (nat d)"
  using assms by (simp add: iso_date_def iso_year_def pad_num_def)

lemma length_iso_date: "0 \<le> y \<Longrightarrow> y \<le> 9999 \<Longrightarrow> length (iso_date (y, m, d)) = 10"
  by (simp add: iso_date_digits length_dec)

lemma parse_date_iso:
  assumes "0 \<le> y" "y \<le> 9999" "1 \<le> m" "m \<le> 12" "1 \<le> d" "d \<le> 31"
  shows "parse_date (iso_date (y, m, d) @ CHR ''T'' # rest) = Some ((y, m, d), CHR ''T'' # rest)"
proof -
  have dv: "digits_val (dec 4 (nat y)) = nat y" "digits_val (dec 2 (nat m)) = nat m"
      "digits_val (dec 2 (nat d)) = nat d"
    using assms by (simp_all add: digits_val_dec)
  have nm: "1 \<le> nat m" "nat m \<le> 12" and nd: "1 \<le> nat d" "nat d \<le> 31"
    using assms by linarith+
  have py: "parse_year (dec 4 (nat y) @ CHR ''-'' # r) = Some (y, CHR ''-'' # r)" for r
    using parse_year_digits [OF isDigit_dec _ not_digit(1), of 4 "nat y" r] assms(1)
    by (simp add: length_dec dv)
  have pm: "parse_dash_field 12 (CHR ''-'' # dec 2 (nat m) @ CHR ''-'' # r) = Some (Some (m, CHR ''-'' # r))" for r
    using parse_dash_field_digits [OF isDigit_dec _ not_digit(1), of 2 "nat m" 12 r] nm assms(3)
    by (simp add: length_dec dv)
  have pd: "parse_dash_field 31 (CHR ''-'' # dec 2 (nat d) @ CHR ''T'' # r) = Some (Some (d, CHR ''T'' # r))" for r
    using parse_dash_field_digits [OF isDigit_dec _ not_digit(2), of 2 "nat d" 31 r] nd assms(5)
    by (simp add: length_dec dv)
  show ?thesis
    by (simp add: iso_date_digits [OF assms(1,2)] parse_date_def py pm pd)
qed

lemma Date_parse_iso:
  assumes "0 \<le> y" "y \<le> 9999" "1 \<le> m" "m \<le> 12" "1 \<le> d" "d \<le> 31"
  shows "Date_parse (iso_date (y, m, d) @ ''T00:00:00-04:00'') = Some (start_of_day (MakeDay y (m - 1) d))"
proof -
  have "Date_parse (iso_date (y, m, d) @ ''T00:00:00-04:00'')
          = TimeClip (MakeDate (MakeDay y (m - 1) d) (MakeTime 0 0 0 0) - (- 240) * msPerMinute)"
    using parse_date_iso [OF assms, of "''00:00:00-04:00''"]
    by (simp add: Date_parse_def expect_def parse_suffix)
  also have "\<dots> = TimeClip (start_of_day (MakeDay y (m - 1) d))"
    by (simp add: MakeDate_def MakeTime_def start_of_day_def msPerMinute_def msPerHour_def)
  also have "\<dots> = Some (start_of_day (MakeDay y (m - 1) d))"
    using MakeDay_range [OF assms] by (intro TimeClip_start) simp_all
  finally show ?thesis .
qed

lemma YearFromTime_start: "YearFromTime (start_of_day n) = YearFromDay n"
  by (simp add: YearFromTime_def Day_start)

lemma civil_of_day_start:
  "civil_of_day n = (YearFromTime (start_of_day n), MonthFromTime (start_of_day n) + 1,
                     DateFromTime (start_of_day n))"
  by (simp add: civil_of_day_def Let_def YearFromTime_def MonthFromTime_def DateFromTime_def
        InLeapYear_def DayWithinYear_def Day_start Day_times)

lemma toISOString_start:
  assumes "0 \<le> YearFromDay n" "YearFromDay n \<le> 9999"
  shows "map_sum id (take 10) (toISOString (Some (start_of_day n))) = Inr (iso_date (civil_of_day n))"
proof -
  obtain rest where e: "toISOString (Some (start_of_day n)) = Inr (iso_date (civil_of_day n) @ rest)"
    by (simp add: toISOString_def civil_of_day_start iso_date_def)
  have "length (iso_date (civil_of_day n)) = 10"
    using assms by (simp add: civil_of_day_start YearFromTime_start length_iso_date)
  then show ?thesis
    by (simp add: e)
qed

lemma priorBizIfWeekend_day:
  assumes "0 \<le> y" "y \<le> 9999" "1 \<le> m" "m \<le> 12" "1 \<le> d" "d \<le> 31"
  shows "priorBizIfWeekend tz (iso_date (y, m, d)) =
           map_sum id (take 10)
             (toISOString (Some (start_of_day
                (MakeDay y (m - 1) d - rollback ((MakeDay y (m - 1) d + local_shift tz + 4) mod 7)))))"
proof -
  define n where "n = MakeDay y (m - 1) d"
  have r: "- 99999999 \<le> n - j" "n - j \<le> 99999999" if "0 \<le> j" "j \<le> 2" for j
    using MakeDay_range [OF assms] that by (simp_all add: n_def)
  have s: "setDate tz (Some (start_of_day n)) (map_option (\<lambda>x. x - j) (getDate tz (Some (start_of_day n))))
             = Some (start_of_day (n - j))" if "0 \<le> j" "j \<le> 2" for j
    using r [OF that] by (simp add: setDate_start TimeClip_start)
  have "(n + local_shift tz + 4) mod 7 \<noteq> 6 \<or> (n + local_shift tz + 4) mod 7 \<noteq> 0"
    by auto
  then show ?thesis
    unfolding priorBizIfWeekend_def Date_parse_iso [OF assms] n_def [symmetric]
    using s [of 1] s [of 2]
    by (auto simp: Let_def getDay_start rollback_def)
qed

definition valid_date :: "int \<times> int \<times> int \<Rightarrow> bool" where
  \<comment> \<open>a calendar date of the years 0000 to 9999\<close>
  "valid_date ymd =
     (case ymd of (y, m, d) \<Rightarrow>
        0 \<le> y \<and> y \<le> 9999 \<and> 1 \<le> m \<and> m \<le> 12 \<and> 1 \<le> d \<and> d \<le> DaysInMonth y m)"

definition prev_day :: "int \<times> int \<times> int \<Rightarrow> int \<times> int \<times> int" where
  \<comment> \<open>the calendar date one day earlier\<close>
  "prev_day ymd =
     (case ymd of (y, m, d) \<Rightarrow>
        if 1 < d then (y, m, d - 1)
        else if 1 < m then (y, m - 1, DaysInMonth y (m - 1))
        else (y - 1, 12, 31))"

definition weekday_of :: "int \<times> int \<times> int \<Rightarrow> int" where
  \<comment> \<open>the day of the week of a calendar date, 0 for Sunday to 6 for Saturday\<close>
  "weekday_of ymd = (case ymd of (y, m, d) \<Rightarrow> (MakeDay y (m - 1) d + 4) mod 7)"

lemma DaysInMonth_le: "DaysInMonth y m \<le> 31"
  using leap_day_cases [of y] by (auto simp: DaysInMonth_def)

lemma DaysInMonth_ge: "28 \<le> DaysInMonth y m"
  using leap_day_cases [of y] by (auto simp: DaysInMonth_def)

lemma civil_of_day_eq:
  "civil_of_day n =
     (YearFromDay n,
      MonthFromDay (leap_day (YearFromDay n)) (n - DayFromYear (YearFromDay n)) + 1,
      n - DayFromYear (YearFromDay n)
        - DaysBeforeMonth (leap_day (YearFromDay n))
            (MonthFromDay (leap_day (YearFromDay n)) (n - DayFromYear (YearFromDay n))) + 1)"
  by (simp add: civil_of_day_def Let_def YearFromTime_def MonthFromTime_def DateFromTime_def
        InLeapYear_def DayWithinYear_def Day_times)

lemma civil_of_day_MakeDay:
  assumes "1 \<le> m" "m \<le> 12" "1 \<le> d" "d \<le> DaysInMonth y m"
  shows "civil_of_day (MakeDay y (m - 1) d) = (y, m, d)"
proof -
  have d31: "d \<le> 31"
    using assms(4) DaysInMonth_le [of y m] by simp
  have y: "YearFromDay (MakeDay y (m - 1) d) = y"
    by (rule YearFromDay_MakeDay [OF assms(1-3) d31])
  have k: "MakeDay y (m - 1) d - DayFromYear y = DaysBeforeMonth (leap_day y) (m - 1) + d - 1"
    by (simp add: MakeDay_month [OF assms(1,2)])
  show ?thesis
    unfolding civil_of_day_eq y k MonthFromDay_inverse [OF assms] by simp
qed

lemma MakeDay_civil_of_day:
  "civil_of_day n = (y, m, d) \<Longrightarrow> MakeDay y (m - 1) d = n"
  using MakeDay_fields [of "n * msPerDay" 0]
  by (auto simp: civil_of_day_def Let_def Day_times)

lemma date_in_month:
  assumes "0 \<le> k" "k \<le> 364 + l" "l = 0 \<or> l = 1"
  shows "1 \<le> k - DaysBeforeMonth l (MonthFromDay l k) + 1
         \<and> k - DaysBeforeMonth l (MonthFromDay l k) + 1 \<le> 31"
  using assms(3,1,2)
  by (elim disjE; simp add: MonthFromDay_def DaysBeforeMonth_def)

lemma civil_of_day_range:
  assumes "DayFromYear 0 \<le> n" "n < DayFromYear 10000" "civil_of_day n = (y, m, d)"
  shows "0 \<le> y \<and> y \<le> 9999 \<and> 1 \<le> m \<and> m \<le> 12 \<and> 1 \<le> d \<and> d \<le> 31"
proof -
  have y: "y = YearFromDay n"
    using assms(3) by (simp add: civil_of_day_eq)
  have b: "DayFromYear y \<le> n" "n < DayFromYear (y + 1)"
    using YearFromDay_bounds [of n] by (simp_all add: y)
  have "0 \<le> y"
  proof (rule ccontr)
    assume "\<not> 0 \<le> y"
    then have "DayFromYear (y + 1) \<le> DayFromYear 0"
      by (intro DayFromYear_mono) simp
    with b assms(1) show False by simp
  qed
  moreover have "y \<le> 9999"
  proof (rule ccontr)
    assume "\<not> y \<le> 9999"
    then have "DayFromYear 10000 \<le> DayFromYear y"
      by (intro DayFromYear_mono) simp
    with b assms(2) show False by simp
  qed
  moreover have "1 \<le> m \<and> m \<le> 12"
    using assms(3) MonthFromDay_range [of "leap_day y" "n - DayFromYear y"]
    by (auto simp: civil_of_day_eq y)
  moreover have "1 \<le> d \<and> d \<le> 31"
  proof -
    have "0 \<le> n - DayFromYear y" "n - DayFromYear y \<le> 364 + leap_day y"
      using b by (simp_all add: DayFromYear_Suc DaysInYear_leap)
    from date_in_month [OF this leap_day_cases] show ?thesis
      using assms(3) by (auto simp: civil_of_day_eq y)
  qed
  ultimately show ?thesis by simp
qed

lemma DaysBeforeMonth_step:
  assumes "2 \<le> m" "m \<le> 12"
  shows "DaysBeforeMonth (leap_day y) (m - 1) = DaysBeforeMonth (leap_day y) (m - 2) + DaysInMonth y (m - 1)"
proof -
  have "m = 2 \<or> m = 3 \<or> m = 4 \<or> m = 5 \<or> m = 6 \<or> m = 7 \<or> m = 8 \<or> m = 9 \<or> m = 10 \<or> m = 11 \<or> m = 12"
    using assms by arith
  then show ?thesis
    by (elim disjE; simp add: DaysBeforeMonth_def DaysInMonth_def)
qed

lemma prev_day_valid:
  assumes "1 \<le> m" "m \<le> 12" "1 \<le> d" "d \<le> DaysInMonth y m" "prev_day (y, m, d) = (y', m', d')"
  shows "1 \<le> m' \<and> m' \<le> 12 \<and> 1 \<le> d' \<and> d' \<le> DaysInMonth y' m'
         \<and> MakeDay y' (m' - 1) d' = MakeDay y (m - 1) d - 1
         \<and> (y' = y \<or> (y' = y - 1 \<and> m = 1 \<and> d = 1))"
proof (cases "1 < d")
  case True
  with assms show ?thesis
    by (auto simp: prev_day_def MakeDay_month)
next
  case False
  with assms(3) have d: "d = 1" by simp
  show ?thesis
  proof (cases "1 < m")
    case True
    then have p: "y' = y" "m' = m - 1" "d' = DaysInMonth y (m - 1)"
      using assms(5) d by (auto simp: prev_day_def)
    have a: "MakeDay y (m - 2) dd = DayFromYear y + DaysBeforeMonth (leap_day y) (m - 2) + dd - 1" for dd
      using MakeDay_month [of "m - 1" y dd] True assms(2) by simp
    have "MakeDay y (m - 1 - 1) (DaysInMonth y (m - 1)) = MakeDay y (m - 1) 1 - 1"
      using True assms(2) DaysBeforeMonth_step [of m y]
      by (simp add: MakeDay_month [of m] a)
    then show ?thesis
      using True assms(2) DaysInMonth_ge [of y "m - 1"] by (simp add: p d)
  next
    case False
    with assms(1) have m: "m = 1" by simp
    have p: "y' = y - 1" "m' = 12" "d' = 31"
      using assms(5) d m by (auto simp: prev_day_def)
    have "MakeDay (y - 1) 11 31 = MakeDay y 0 1 - 1"
      using DayFromYear_Suc [of "y - 1"]
      by (simp add: MakeDay_def DaysBeforeMonth_def DaysInYear_leap Let_def)
    then show ?thesis
      by (simp add: p d m DaysInMonth_def)
  qed
qed

lemma local_shift_0: "- 240 \<le> tz \<Longrightarrow> tz < 1200 \<Longrightarrow> local_shift tz = 0"
  by (simp add: local_shift_def msPerDay_def msPerHour_def msPerMinute_def div_pos_pos_trivial)

lemma local_shift_m1: "- 1680 \<le> tz \<Longrightarrow> tz < - 240 \<Longrightarrow> local_shift tz = - 1"
proof -
  assume a: "- 1680 \<le> tz" "tz < - 240"
  have "(4 * msPerHour + tz * msPerMinute) = (- 1) * msPerDay + (100800000 + tz * 60000)"
    by (simp add: msPerDay_def msPerHour_def msPerMinute_def)
  moreover have "((- 1) * msPerDay + (100800000 + tz * 60000)) div msPerDay = - 1"
    using a Day_of_day [of "100800000 + tz * 60000" "- 1"] by (simp add: Day_def msPerDay_def)
  ultimately show ?thesis
    by (simp add: local_shift_def)
qed

definition date_year :: "string \<Rightarrow> nat" where
  "date_year s = digits_val (take 4 s)"

definition date_month :: "string \<Rightarrow> nat" where
  "date_month s = digits_val (take 2 (drop 5 s))"

definition date_day :: "string \<Rightarrow> nat" where
  "date_day s = digits_val (take 2 (drop 8 s))"

definition parseable_date :: "string \<Rightarrow> bool" where
  \<comment> \<open>a string of the shape \<open>YYYY-MM-DD\<close> that \<^verbatim>\<open>new Date\<close> accepts\<close>
  "parseable_date s =
     (matches_date s \<and> 1 \<le> date_month s \<and> date_month s \<le> 12 \<and> 1 \<le> date_day s \<and> date_day s \<le> 31)"

lemma resolve_to:
  assumes "0 \<le> y" "y \<le> 9999" "1 \<le> m" "m \<le> 12" "1 \<le> d" "d \<le> DaysInMonth y m"
  shows "map_sum id (take 10) (toISOString (Some (start_of_day (MakeDay y (m - 1) d))))
           = Inr (iso_date (y, m, d))"
proof -
  have d31: "d \<le> 31"
    using assms(6) DaysInMonth_le [of y m] by simp
  have "YearFromDay (MakeDay y (m - 1) d) = y"
    by (rule YearFromDay_MakeDay [OF assms(3-5) d31])
  with assms(1,2) show ?thesis
    by (simp add: toISOString_start civil_of_day_MakeDay [OF assms(3-6)])
qed

lemma rollback_le: "0 \<le> rollback w \<and> rollback w \<le> 2"
  by (simp add: rollback_def)

lemma rollback_idem: "rollback ((x - rollback (x mod 7)) mod 7) = 0"
proof -
  define r where "r = x mod 7"
  have e: "(x - c) mod 7 = (r - c) mod 7" for c
    unfolding r_def by (simp add: mod_diff_left_eq)
  have b: "0 \<le> r" "r < 7"
    by (simp_all add: r_def)
  have "rollback ((r - rollback r) mod 7) = 0"
  proof (cases "r = 6 \<or> r = 0")
    case True
    then show ?thesis
      by (auto simp: rollback_def)
  next
    case False
    then have "rollback r = 0"
      by (simp add: rollback_def)
    moreover have "r mod 7 = r"
      using b by simp
    ultimately show ?thesis
      by simp
  qed
  then show ?thesis
    using e [of "rollback r"] by (simp add: r_def)
qed

lemma digits_val_bound: "digits_val ds < 10 ^ length ds"
proof (induction ds rule: rev_induct)
  case Nil
  show ?case by (simp add: digits_val_def)
next
  case (snoc c ds)
  then show ?case
    using digit_val_less [of c] by (simp add: digits_val_snoc)
qed

lemma matches_date_shape:
  assumes "matches_date s"
  obtains ys ms ds where "s = ys @ CHR ''-'' # ms @ CHR ''-'' # ds"
    "length ys = 4" "length ms = 2" "length ds = 2"
    "list_all isDigit ys" "list_all isDigit ms" "list_all isDigit ds"
proof -
  from assms obtain y1 y2 y3 y4 m1 m2 d1 d2 where
    s: "s = [y1, y2, y3, y4, CHR ''-'', m1, m2, CHR ''-'', d1, d2]"
    and dg: "list_all isDigit [y1, y2, y3, y4, m1, m2, d1, d2]"
    by (auto simp: matches_date_def split: list.splits)
  show ?thesis
    by (rule that [of "[y1, y2, y3, y4]" "[m1, m2]" "[d1, d2]"]) (use s dg in simp_all)
qed

lemma matches_date_iso:
  assumes "matches_date s"
  shows "s = iso_date (int (date_year s), int (date_month s), int (date_day s))
         \<and> date_year s \<le> 9999"
proof -
  from assms obtain ys ms ds where s: "s = ys @ CHR ''-'' # ms @ CHR ''-'' # ds"
    and l: "length ys = 4" "length ms = 2" "length ds = 2"
    and dg: "list_all isDigit ys" "list_all isDigit ms" "list_all isDigit ds"
    by (rule matches_date_shape)
  have f: "date_year s = digits_val ys" "date_month s = digits_val ms" "date_day s = digits_val ds"
    using l by (simp_all add: s date_year_def date_month_def date_day_def)
  have b: "digits_val ys < 10 ^ 4"
    using digits_val_bound [of ys] l by simp
  have "dec 4 (digits_val ys) = ys" "dec 2 (digits_val ms) = ms" "dec 2 (digits_val ds) = ds"
    using dec_digits_val [OF dg(1)] dec_digits_val [OF dg(2)] dec_digits_val [OF dg(3)] l
    by simp_all
  then have "iso_date (int (digits_val ys), int (digits_val ms), int (digits_val ds)) = s"
    using b by (simp add: iso_date_digits s)
  with b show ?thesis
    by (simp add: f)
qed

lemma year_minus_one_text:
  "map_sum id (take 10) (toISOString (Some (start_of_day (- 719529)))) = Inr ''-000001-12''"
  by code_simp

lemma year_minus_one_parse:
  "Date_parse (''-000001-12'' @ ''T00:00:00-04:00'') = Some (start_of_day (- 719559))"
  by code_simp

lemma year_minus_one_month:
  "map_sum id (take 10) (toISOString (Some (start_of_day (- 719559)))) = Inr ''-000001-12''"
  by code_simp

lemma resolved_lower:
  assumes "- 719528 \<le> n" "k = 0 \<or> k = - 1" "n - rollback ((n + k + 4) mod 7) < - 719528"
  shows "k = 0 \<and> n - rollback ((n + k + 4) mod 7) = - 719529"
proof -
  have "n < - 719526"
    using assms(3) rollback_le [of "(n + k + 4) mod 7"] by linarith
  with assms(1) have n: "n = - 719528 \<or> n = - 719527"
    by linarith
  show ?thesis
  proof (cases "k = 0")
    case True
    with n show ?thesis
      by (auto simp: rollback_def)
  next
    case False
    with assms(2) have "k = - 1"
      by simp
    with n assms(3) show ?thesis
      by (auto simp: rollback_def)
  qed
qed

lemma priorBizIfWeekend_fixed:
  assumes "0 \<le> y" "y \<le> 9999" "1 \<le> m" "m \<le> 12" "1 \<le> d" "d \<le> 31"
    and "rollback ((MakeDay y (m - 1) d + local_shift tz + 4) mod 7) = 0"
    and "civil_of_day (MakeDay y (m - 1) d) = (y, m, d)"
  shows "priorBizIfWeekend tz (iso_date (y, m, d)) = Inr (iso_date (y, m, d))"
proof -
  have "YearFromDay (MakeDay y (m - 1) d) = y"
    by (rule YearFromDay_MakeDay [OF assms(3-6)])
  with assms(1,2,7,8) show ?thesis
    by (simp add: priorBizIfWeekend_day [OF assms(1-6)] toISOString_start)
qed

lemma priorBizIfWeekend_year_minus_one:
  assumes "local_shift tz = 0"
  shows "priorBizIfWeekend tz ''-000001-12'' = Inr ''-000001-12''"
proof -
  have "(- 719559 + local_shift tz + 4) mod 7 = 3"
    by (simp add: assms)
  then show ?thesis
    by (simp add: priorBizIfWeekend_def year_minus_one_parse getDay_start Let_def
          year_minus_one_month del: append.simps)
qed

lemma priorBizIfWeekend_twice:
  assumes "- 1680 \<le> tz" "tz < 1200" "0 \<le> y" "y \<le> 9999" "1 \<le> m" "m \<le> 12" "1 \<le> d" "d \<le> 31"
  shows "\<exists>r. priorBizIfWeekend tz (iso_date (y, m, d)) = Inr r \<and> priorBizIfWeekend tz r = Inr r"
proof -
  define n where "n = MakeDay y (m - 1) d"
  define k where "k = local_shift tz"
  define n' where "n' = n - rollback ((n + k + 4) mod 7)"
  have k: "k = 0 \<or> k = - 1"
  proof (cases "- 240 \<le> tz")
    case True
    then show ?thesis
      using assms(2) by (simp add: k_def local_shift_0)
  next
    case False
    then show ?thesis
      using assms(1) by (simp add: k_def local_shift_m1)
  qed
  have n: "- 719528 \<le> n" "n < 2932897"
    using MakeDay_range [OF assms(3-8)] by (simp_all add: n_def)
  have first: "priorBizIfWeekend tz (iso_date (y, m, d))
                 = map_sum id (take 10) (toISOString (Some (start_of_day n')))"
    by (simp add: priorBizIfWeekend_day [OF assms(3-8)] n'_def n_def k_def)
  have le: "n' \<le> n"
    by (simp add: n'_def rollback_def)
  show ?thesis
  proof (cases "- 719528 \<le> n'")
    case True
    obtain Y M D where c: "civil_of_day n' = (Y, M, D)"
      by (cases "civil_of_day n'") auto
    have r: "0 \<le> Y \<and> Y \<le> 9999 \<and> 1 \<le> M \<and> M \<le> 12 \<and> 1 \<le> D \<and> D \<le> 31"
      using True le n by (intro civil_of_day_range [OF _ _ c]) (simp_all add: DayFromYear_0 DayFromYear_10000)
    have md: "MakeDay Y (M - 1) D = n'"
      by (rule MakeDay_civil_of_day [OF c])
    have "YearFromDay n' = Y"
      using c by (simp add: civil_of_day_eq)
    with r have one: "priorBizIfWeekend tz (iso_date (y, m, d)) = Inr (iso_date (Y, M, D))"
      by (simp add: first toISOString_start c)
    have "rollback ((n' + k + 4) mod 7) = 0"
      using rollback_idem [of "n + k + 4"] by (simp add: n'_def algebra_simps)
    then have "priorBizIfWeekend tz (iso_date (Y, M, D)) = Inr (iso_date (Y, M, D))"
      using r by (intro priorBizIfWeekend_fixed) (simp_all add: md c k_def)
    with one show ?thesis by blast
  next
    case False
    then have "n - rollback ((n + k + 4) mod 7) < - 719528"
      by (simp add: n'_def)
    from resolved_lower [OF n(1) k this] have "k = 0" "n' = - 719529"
      unfolding n'_def by blast+
    then show ?thesis
      using priorBizIfWeekend_year_minus_one [of tz]
      by (simp add: first year_minus_one_text k_def)
  qed
qed


lemma parseable_examples:
  "parseable_date ''2024-06-08''" "parseable_date ''2024-06-09''" "parseable_date ''0000-01-01''"
  by code_simp+


lemma prev_day_year:
  assumes "valid_date (y, m, d)" "(y, m, d) \<noteq> (0, 1, 1)" "prev_day (y, m, d) = (y', m', d')"
  shows "valid_date (y', m', d') \<and> MakeDay y' (m' - 1) d' = MakeDay y (m - 1) d - 1"
proof -
  have v: "1 \<le> m" "m \<le> 12" "1 \<le> d" "d \<le> DaysInMonth y m" "0 \<le> y" "y \<le> 9999"
    using assms(1) by (simp_all add: valid_date_def)
  from prev_day_valid [OF v(1-4) assms(3)] v(5,6) assms(2) show ?thesis
    by (auto simp: valid_date_def)
qed

lemma resolve_valid:
  assumes "valid_date (y, m, d)"
  shows "map_sum id (take 10) (toISOString (Some (start_of_day (MakeDay y (m - 1) d))))
           = Inr (iso_date (y, m, d))"
  using assms by (intro resolve_to) (simp_all add: valid_date_def)

lemma priorBizIfWeekend_valid:
  assumes "- 240 \<le> tz" "tz < 1200" "valid_date (y, m, d)"
    "(y, m, d) \<noteq> (0, 1, 1)" "(y, m, d) \<noteq> (0, 1, 2)"
  shows "priorBizIfWeekend tz (iso_date (y, m, d)) =
           Inr (iso_date (if weekday_of (y, m, d) = 6 then prev_day (y, m, d)
                          else if weekday_of (y, m, d) = 0 then prev_day (prev_day (y, m, d))
                          else (y, m, d)))"
proof -
  define n where "n = MakeDay y (m - 1) d"
  have v: "0 \<le> y" "y \<le> 9999" "1 \<le> m" "m \<le> 12" "1 \<le> d" "d \<le> 31"
    using assms(3) DaysInMonth_le [of y m] by (simp_all add: valid_date_def)
  have wd: "weekday_of (y, m, d) = (n + 4) mod 7"
    by (simp add: weekday_of_def n_def)
  have first: "priorBizIfWeekend tz (iso_date (y, m, d))
                 = map_sum id (take 10) (toISOString (Some (start_of_day (n - rollback ((n + 4) mod 7)))))"
    by (simp add: priorBizIfWeekend_day [OF v] n_def local_shift_0 [OF assms(1,2)])
  obtain y1 m1 d1 where p1: "prev_day (y, m, d) = (y1, m1, d1)"
    by (cases "prev_day (y, m, d)") auto
  from prev_day_year [OF assms(3,4) p1]
  have v1: "valid_date (y1, m1, d1)" and n1: "MakeDay y1 (m1 - 1) d1 = n - 1"
    by (simp_all add: n_def)
  show ?thesis
  proof (cases "(n + 4) mod 7 = 6")
    case True
    then show ?thesis
      using resolve_valid [OF v1] by (simp add: first wd rollback_def n1 p1)
  next
    case sat: False
    show ?thesis
    proof (cases "(n + 4) mod 7 = 0")
      case True
      have ne: "(y1, m1, d1) \<noteq> (0, 1, 1)"
      proof
        assume "(y1, m1, d1) = (0, 1, 1)"
        then have "prev_day (y, m, d) = (0, 1, 1)"
          by (simp add: p1)
        then have "(y, m, d) = (0, 1, 2)"
          using v(3,5) DaysInMonth_ge [of y "m - 1"]
          by (auto simp: prev_day_def split: if_splits)
        with assms(5) show False by simp
      qed
      obtain y2 m2 d2 where p2: "prev_day (y1, m1, d1) = (y2, m2, d2)"
        by (cases "prev_day (y1, m1, d1)") auto
      from prev_day_year [OF v1 ne p2]
      have v2: "valid_date (y2, m2, d2)" and n2: "MakeDay y2 (m2 - 1) d2 = n - 2"
        by (simp_all add: n1)
      show ?thesis
        using True resolve_valid [OF v2] by (simp add: first wd rollback_def n2 p1 p2)
    next
      case False
      with sat show ?thesis
        using resolve_valid [OF assms(3)] by (simp add: first wd rollback_def n_def)
    qed
  qed
qed

lemma june_2024:
  "iso_date (2024, 6, 8) = ''2024-06-08''" "iso_date (2024, 6, 9) = ''2024-06-09''"
  "iso_date (2024, 6, 10) = ''2024-06-10''" "iso_date (2024, 6, 7) = ''2024-06-07''"
  by code_simp+

lemma june_2024_valid:
  "valid_date (2024, 6, 8)" "valid_date (2024, 6, 9)" "valid_date (2024, 6, 10)"
  by (simp_all add: valid_date_def DaysInMonth_def)

lemma june_2024_weekday:
  "weekday_of (2024, 6, 8) = 6" "weekday_of (2024, 6, 9) = 0" "weekday_of (2024, 6, 10) = 1"
  by (simp_all add: weekday_of_def MakeDay_def DayFromYear_def DaysBeforeMonth_def leap_day_def
        DaysInYear_def)

lemma june_2024_prev:
  "prev_day (2024, 6, 8) = (2024, 6, 7)" "prev_day (prev_day (2024, 6, 9)) = (2024, 6, 7)"
  by (simp_all add: prev_day_def)



lemma year_zero:
  "iso_date (0, 1, 1) = ''0000-01-01''" "iso_date (prev_day (0, 1, 1)) = ''-000001-12-31''"
  by code_simp+


section \<open>The batch\<close>

lemma upper_unit_idem: "upper_unit (upper_unit c) = upper_unit c"
  by (simp add: upper_unit_def lower_az_def upper_az_def)

lemma toUpperCase_fixed: "\<forall>c \<in> set s. upper_unit c = c \<Longrightarrow> toUpperCase s = s"
  by (induction s) (simp_all add: toUpperCase_def)

lemma set_trim: "set (trim s) \<subseteq> set s"
proof -
  have "set (trim s) \<subseteq> set (dropWhile isWhiteSpace s)"
    unfolding trim_def using set_dropWhileD [of _ isWhiteSpace "rev (dropWhile isWhiteSpace s)"]
    by auto
  then show ?thesis
    using set_dropWhileD [of _ isWhiteSpace s] by blast
qed

lemma trim_idem: "trim (trim s) = trim s"
proof -
  define u where "u = dropWhile isWhiteSpace s"
  define v where "v = dropWhile isWhiteSpace (rev u)"
  have t: "trim s = rev v"
    by (simp add: trim_def u_def v_def)
  have "rev u = takeWhile isWhiteSpace (rev u) @ v"
    by (simp add: v_def)
  then have "u = rev v @ rev (takeWhile isWhiteSpace (rev u))"
    by (metis rev_append rev_rev_ident)
  then have hd: "rev v \<noteq> [] \<Longrightarrow> hd (rev v) = hd u"
    by (metis hd_append2)
  have "dropWhile isWhiteSpace (rev v) = rev v"
  proof (cases "rev v")
    case Nil
    then show ?thesis by simp
  next
    case (Cons x xs)
    then have "u \<noteq> []" "hd u = x"
      using hd \<open>u = rev v @ rev (takeWhile isWhiteSpace (rev u))\<close> by auto
    then have "\<not> isWhiteSpace x"
      using hd_dropWhile [of isWhiteSpace s] by (auto simp: u_def)
    with Cons show ?thesis by simp
  qed
  then have "trim (rev v) = rev (dropWhile isWhiteSpace v)"
    by (simp add: trim_def)
  also have "\<dots> = rev v"
    by (simp add: v_def)
  finally show ?thesis
    by (simp add: t)
qed

lemma normalise_idem: "normalise (normalise s) = normalise s"
proof -
  have "\<forall>c \<in> set (trim (toUpperCase s)). upper_unit c = c"
    using set_trim [of "toUpperCase s"] by (auto simp: toUpperCase_def upper_unit_idem)
  then have "toUpperCase (trim (toUpperCase s)) = trim (toUpperCase s)"
    by (rule toUpperCase_fixed)
  then show ?thesis
    by (simp add: normalise_def trim_idem)
qed

subsection \<open>The pool keeps every task\<close>

definition pending :: "(task \<Rightarrow> symbol_result \<times> string list) \<Rightarrow> pool \<Rightarrow> symbol_result multiset" where
  \<comment> \<open>the results gathered so far, with those of the tasks still running or queued\<close>
  "pending F p =
     mset (results p) + image_mset (\<lambda>t. fst (F t)) (mset (running p) + mset (queue p))"

definition requests :: "(task \<Rightarrow> symbol_result \<times> string list) \<Rightarrow> pool \<Rightarrow> string list" where
  \<comment> \<open>the URLs requested so far, followed by those of the tasks still queued\<close>
  "requests F p = fetched p @ concat (map (\<lambda>t. snd (F t)) (queue p))"

lemma launch_pending: "queue p = t # q \<Longrightarrow> pending F (launch F t p) = pending F p"
  by (simp add: pending_def launch_def)

lemma launch_requests: "queue p = t # q \<Longrightarrow> requests F (launch F t p) = requests F p"
  by (simp add: requests_def launch_def)

lemma mset_remove_nth:
  "i < length xs \<Longrightarrow> mset (take i xs @ drop (Suc i) xs) + {#xs ! i#} = mset xs"
  by (metis add_mset_add_single id_take_nth_drop mset.simps(2) mset_append union_mset_add_mset_right)

lemma settle_pending: "i < length (running p) \<Longrightarrow> pending F (settle F i p) = pending F p"
proof -
  assume i: "i < length (running p)"
  have "image_mset (\<lambda>t. fst (F t)) (mset (take i (running p) @ drop (Suc i) (running p)))
          + {#fst (F (running p ! i))#}
        = image_mset (\<lambda>t. fst (F t)) (mset (running p))"
    using mset_remove_nth [OF i] by (metis image_mset_single image_mset_union)
  then show ?thesis
    by (simp add: pending_def settle_def ac_simps)
qed

lemma settle_requests: "requests F (settle F i p) = requests F p"
  by (simp add: requests_def settle_def)

lemma settle_pick_pending: "pending F (settle_pick F i p) = pending F p"
  by (simp add: settle_pick_def settle_pending)

lemma settle_pick_requests: "requests F (settle_pick F i p) = requests F p"
  by (simp add: settle_pick_def settle_requests)

lemma fold_settle_pick_pending: "pending F (fold (settle_pick F) picks p) = pending F p"
  by (induction picks arbitrary: p) (simp_all add: settle_pick_pending)

lemma fold_settle_pick_requests: "requests F (fold (settle_pick F) picks p) = requests F p"
  by (induction picks arbitrary: p) (simp_all add: settle_pick_requests)

lemma await_race_pending: "pending F (await_race F ev p) = pending F p"
  by (simp add: await_race_def fold_settle_pick_pending settle_pick_pending)

lemma await_race_requests: "requests F (await_race F ev p) = requests F p"
  by (simp add: await_race_def fold_settle_pick_requests settle_pick_requests)

lemma refill_pending: "pending F (refill F p) = pending F p"
proof (induction F p rule: refill.induct)
  case (1 F p)
  show ?case
  proof (cases "queue p")
    case Nil
    then show ?thesis by (simp add: refill.simps [of F p])
  next
    case (Cons t q)
    show ?thesis
    proof (cases "length (running p) < CONCURRENCY")
      case True
      with Cons 1 [OF Cons True] show ?thesis
        by (simp add: refill.simps [of F p] launch_pending [OF Cons])
    next
      case False
      with Cons show ?thesis by (simp add: refill.simps [of F p])
    qed
  qed
qed

lemma refill_requests: "requests F (refill F p) = requests F p"
proof (induction F p rule: refill.induct)
  case (1 F p)
  show ?case
  proof (cases "queue p")
    case Nil
    then show ?thesis by (simp add: refill.simps [of F p])
  next
    case (Cons t q)
    show ?thesis
    proof (cases "length (running p) < CONCURRENCY")
      case True
      with Cons 1 [OF Cons True] show ?thesis
        by (simp add: refill.simps [of F p] launch_requests [OF Cons])
    next
      case False
      with Cons show ?thesis by (simp add: refill.simps [of F p])
    qed
  qed
qed

lemma run_pool_invariants:
  "pending F (run_pool F sched p) = pending F p
   \<and> requests F (run_pool F sched p) = requests F p
   \<and> queue (run_pool F sched p) = [] \<and> running (run_pool F sched p) = []"
proof (induction F sched p rule: run_pool.induct)
  case (1 F sched p)
  show ?case
  proof (cases "queue p = [] \<and> running p = []")
    case True
    then show ?thesis by (simp add: run_pool.simps [of F sched p])
  next
    case False
    with 1 [OF False] show ?thesis
      by (simp add: run_pool.simps [of F sched p] await_race_pending await_race_requests
            refill_pending refill_requests)
  qed
qed

lemma run_pool_results:
  "mset (results (run_pool F sched \<lparr>queue = q, running = [], results = [], fetched = []\<rparr>))
     = image_mset (\<lambda>t. fst (F t)) (mset q)"
proof -
  define p0 :: pool where "p0 = \<lparr>queue = q, running = [], results = [], fetched = []\<rparr>"
  from run_pool_invariants [of F sched p0]
  have a: "pending F (run_pool F sched p0) = pending F p0"
    and b: "queue (run_pool F sched p0) = []" "running (run_pool F sched p0) = []"
    by blast+
  have "mset (results (run_pool F sched p0)) = pending F (run_pool F sched p0)"
    by (simp add: pending_def b)
  also have "\<dots> = image_mset (\<lambda>t. fst (F t)) (mset q)"
    by (simp add: a) (simp add: pending_def p0_def)
  finally show ?thesis
    by (simp add: p0_def)
qed

lemma run_pool_fetched:
  "fetched (run_pool F sched \<lparr>queue = q, running = [], results = [], fetched = []\<rparr>)
     = concat (map (\<lambda>t. snd (F t)) q)"
proof -
  define p0 :: pool where "p0 = \<lparr>queue = q, running = [], results = [], fetched = []\<rparr>"
  from run_pool_invariants [of F sched p0]
  have a: "requests F (run_pool F sched p0) = requests F p0"
    and b: "queue (run_pool F sched p0) = []"
    by blast+
  have "fetched (run_pool F sched p0) = requests F (run_pool F sched p0)"
    by (simp add: requests_def b)
  also have "\<dots> = concat (map (\<lambda>t. snd (F t)) q)"
    by (simp add: a) (simp add: requests_def p0_def)
  finally show ?thesis
    by (simp add: p0_def)
qed

subsection \<open>Sorting\<close>

lemma mset_insert_by: "mset (insert_by cmp x ys) = add_mset x (mset ys)"
  by (induction ys) simp_all

lemma mset_Array_sort: "mset (Array_sort cmp xs) = mset xs"
  by (induction xs) (simp_all add: Array_sort_def mset_insert_by)

lemma length_Array_sort: "length (Array_sort cmp xs) = length xs"
  using mset_Array_sort [of cmp xs] by (metis size_mset)

definition consistent :: "('a \<Rightarrow> 'a \<Rightarrow> int) \<Rightarrow> bool" where
  \<comment> \<open>a comparator that orders any two values and is transitive\<close>
  "consistent cmp =
     ((\<forall>a b. cmp a b \<le> 0 \<or> cmp b a \<le> 0)
      \<and> (\<forall>a b c. cmp a b \<le> 0 \<and> cmp b c \<le> 0 \<longrightarrow> cmp a c \<le> 0))"

lemma set_insert_by: "set (insert_by cmp x ys) = insert x (set ys)"
  by (induction ys) auto

lemma sorted_insert_by:
  assumes "consistent cmp" "sorted_wrt (\<lambda>a b. cmp a b \<le> 0) ys"
  shows "sorted_wrt (\<lambda>a b. cmp a b \<le> 0) (insert_by cmp x ys)"
  using assms(2)
proof (induction ys)
  case Nil
  show ?case by simp
next
  case (Cons y ys)
  show ?case
  proof (cases "cmp x y \<le> 0")
    case True
    have "\<forall>z \<in> set ys. cmp x z \<le> 0"
      using Cons.prems True assms(1) unfolding consistent_def by (metis sorted_wrt.simps(2))
    with True Cons.prems show ?thesis by simp
  next
    case False
    then have "cmp y x \<le> 0"
      using assms(1) unfolding consistent_def by blast
    with False Cons show ?thesis
      by (auto simp: set_insert_by)
  qed
qed

lemma sorted_Array_sort:
  "consistent cmp \<Longrightarrow> sorted_wrt (\<lambda>a b. cmp a b \<le> 0) (Array_sort cmp xs)"
  by (induction xs) (simp_all add: Array_sort_def sorted_insert_by)

section \<open>The response to a request\<close>

definition request_date :: "request \<Rightarrow> string option" where
  \<comment> \<open>lines 33 and 38: where the handler reads the date of a GET or POST request\<close>
  "request_date req =
     (if http_method req = ''GET'' then q_date (query req) else Option.bind (body req) b_date)"

definition batch_items ::
  "(nat \<Rightarrow> string \<Rightarrow> fetch_outcome) \<Rightarrow> string \<Rightarrow> string list \<Rightarrow> symbol_result multiset" where
  \<comment> \<open>for each requested symbol, the result of \<^verbatim>\<open>fetchWSJ\<close> on what the upstream
      answers to the request made for that symbol\<close>
  "batch_items upstream resolvedISO requested =
     image_mset (\<lambda>t. fst (fetchWSJ (upstream (fst t)) (snd t) (toMMDDYYYY resolvedISO) resolvedISO))
       (mset (enumerate 0 (map normalise requested)))"

lemma priorBizIfWeekend_returns:
  assumes "parseable_date d"
  shows "\<exists>r. priorBizIfWeekend tz d = Inr r"
proof -
  have m: "matches_date d"
    using assms by (simp add: parseable_date_def)
  from matches_date_iso [OF m]
  have s: "d = iso_date (int (date_year d), int (date_month d), int (date_day d))"
    and y: "date_year d \<le> 9999"
    by simp_all
  have "\<exists>r. priorBizIfWeekend tz (iso_date (int (date_year d), int (date_month d), int (date_day d))) = Inr r"
    using assms y
    by (subst priorBizIfWeekend_day) (simp_all add: parseable_date_def toISOString_def)
  with s show ?thesis by simp
qed

lemma consistent_on_symbol:
  "consistent cmp \<Longrightarrow> consistent (\<lambda>a b. cmp (symbol a) (symbol b))"
  unfolding consistent_def by blast

lemma handler_batch:
  assumes "parse_input req = Some (Some d, Array requested)" "matches_date d"
    and "priorBizIfWeekend (tzOffset h) d = Inr resolvedISO"
  shows "\<exists>b. handler h upstream sched req =
               (\<lparr>code = 200, cache_control = Some ''no-store'', content = Batch b\<rparr>,
                concat (map (\<lambda>t. snd (run_symbol upstream (toMMDDYYYY resolvedISO) resolvedISO t))
                          (enumerate 0 (map normalise requested))))
             \<and> resolvedDate b = resolvedISO
             \<and> total b = length requested
             \<and> ok b + fail b = length requested
             \<and> mset (items b) = batch_items upstream resolvedISO requested
             \<and> (consistent (localeCompare h) \<longrightarrow>
                  sorted_wrt (\<lambda>a c. localeCompare h (symbol a) (symbol c) \<le> 0) (items b))"
proof -
  define F where "F = run_symbol upstream (toMMDDYYYY resolvedISO) resolvedISO"
  define q where "q = enumerate 0 (map normalise requested)"
  define p where "p = run_pool F sched \<lparr>queue = q, running = [], results = [], fetched = []\<rparr>"
  define b where "b = \<lparr>resolvedDate = resolvedISO, total = length requested,
      ok = length (filter (\<lambda>r. status r = Ok) (results p)),
      fail = length (filter (\<lambda>r. status r \<noteq> Ok) (results p)),
      items = Array_sort (\<lambda>a b. localeCompare h (symbol a) (symbol b)) (results p)\<rparr>"
  have d: "d \<noteq> []"
    using assms(2) by (auto simp: matches_date_def)
  have res: "mset (results p) = image_mset (\<lambda>t. fst (F t)) (mset q)"
    unfolding p_def by (rule run_pool_results)
  then have "size (mset (results p)) = size (mset q)"
    by simp
  then have len: "length (results p) = length requested"
    by (simp add: q_def)
  have h: "handler h upstream sched req =
             (\<lparr>code = 200, cache_control = Some ''no-store'', content = Batch b\<rparr>, fetched p)"
    using assms d by (simp add: handler_def Let_def b_def p_def F_def q_def)
  have f: "fetched p = concat (map (\<lambda>t. snd (F t)) q)"
    unfolding p_def by (rule run_pool_fetched)
  have "ok b + fail b = length requested"
    using sum_length_filter_compl [of "\<lambda>r. status r = Ok" "results p"] len by (simp add: b_def)
  moreover have "mset (items b) = batch_items upstream resolvedISO requested"
    by (simp add: b_def mset_Array_sort res batch_items_def F_def q_def run_symbol_def)
  moreover have "consistent (localeCompare h) \<longrightarrow>
      sorted_wrt (\<lambda>a c. localeCompare h (symbol a) (symbol c) \<le> 0) (items b)"
    using sorted_Array_sort [OF consistent_on_symbol, of "localeCompare h" "results p"]
    by (simp add: b_def)
  ultimately show ?thesis
    using h f by (intro exI [of _ b]) (simp add: b_def F_def q_def)
qed

lemma symbol_batch_items:
  "image_mset symbol (batch_items upstream resolvedISO requested) = mset (map normalise requested)"
proof -
  define q where "q = enumerate 0 (map normalise requested)"
  have "image_mset symbol (batch_items upstream resolvedISO requested)
          = image_mset (\<lambda>t. normalise (snd t)) (mset q)"
    by (simp add: batch_items_def image_mset.compositionality comp_def fetchWSJ_symbol q_def)
  also have "\<dots> = mset (map normalise (map snd q))"
    by (simp add: comp_def)
  also have "map snd q = map normalise requested"
    by (simp add: q_def)
  also have "map normalise (map normalise requested) = map normalise requested"
    by (simp add: normalise_idem)
  finally show ?thesis .
qed


subsection \<open>A comparator for the examples\<close>

definition compare_units :: "string \<Rightarrow> string \<Rightarrow> int" where
  \<comment> \<open>a comparator: the order of the code units, as \<^verbatim>\<open>localeCompare\<close> orders
      strings of the letters A to Z\<close>
  "compare_units a b = (if a = b then 0 else if string_gt a b then 1 else - 1)"

lemma string_gt_irrefl: "\<not> string_gt a a"
  by (induction a) simp_all

lemma string_gt_total: "string_gt a b \<or> a = b \<or> string_gt b a"
proof (induction a b rule: string_gt.induct)
  case (1 b)
  show ?case by (cases b) simp_all
next
  case (2 x xs)
  show ?case by simp
next
  case (3 x xs y ys)
  show ?case
  proof (cases "x = y")
    case True
    with 3 show ?thesis by auto
  next
    case False
    then have "(of_char x :: nat) < of_char y \<or> (of_char y :: nat) < of_char x"
      by (metis linorder_less_linear of_char_eq_iff)
    with False show ?thesis by auto
  qed
qed

lemma string_gt_trans: "string_gt a b \<Longrightarrow> string_gt b c \<Longrightarrow> string_gt a c"
proof (induction a b arbitrary: c rule: string_gt.induct)
  case (1 b)
  then show ?case by simp
next
  case (2 x xs)
  then show ?case by simp
next
  case (3 x xs y ys)
  from "3.prems"(2) obtain z zs where c: "c = [] \<or> c = z # zs"
    by (cases c) auto
  show ?case
  proof (cases "c = []")
    case True
    then show ?thesis by simp
  next
    case False
    then obtain z zs where c: "c = z # zs"
      by (cases c) auto
    show ?thesis
    proof (cases "x = y")
      case xy: True
      show ?thesis
      proof (cases "y = z")
        case True
        with xy 3 c show ?thesis by simp
      next
        case False
        with xy 3 c show ?thesis by simp
      qed
    next
      case xy: False
      show ?thesis
      proof (cases "y = z")
        case True
        with xy 3 c show ?thesis by simp
      next
        case False
        with xy "3.prems" c have "(of_char z :: nat) < of_char x"
          by simp
        then show ?thesis
          using c by auto
      qed
    qed
  qed
qed

lemma consistent_compare_units: "consistent compare_units"
proof -
  have le: "compare_units a b \<le> 0 \<longleftrightarrow> \<not> string_gt a b" for a b
    by (simp add: compare_units_def string_gt_irrefl)
  have asym: "\<not> string_gt a b \<or> \<not> string_gt b a" for a b
    using string_gt_trans [of a b a] string_gt_irrefl [of a] by blast
  have neg: "\<not> string_gt a c" if "\<not> string_gt a b" "\<not> string_gt b c" for a b c
    using that string_gt_total [of a b] string_gt_total [of b c] string_gt_trans
    by (metis)
  show ?thesis
    unfolding consistent_def le using asym neg by blast
qed

subsection \<open>Requests that are refused\<close>

definition utc_host :: host where
  \<comment> \<open>a host in UTC that collates by code unit\<close>
  "utc_host = \<lparr>tzOffset = 0, localeCompare = compare_units\<rparr>"

definition get_request :: "string \<Rightarrow> string \<Rightarrow> request" where
  \<comment> \<open>\<^verbatim>\<open>GET /api/fx?date=...&symbols=...\<close>\<close>
  "get_request d syms =
     \<lparr>http_method = ''GET'',
      query = \<lparr>q_date = Some d, q_coverage = None, q_symbols = Some syms\<rparr>,
      body = None\<rparr>"

lemma parse_input_date:
  "http_method req = ''GET'' \<or> http_method req = ''POST'' \<Longrightarrow>
     \<exists>syms. parse_input req = Some (request_date req, syms)"
  by (auto simp: parse_input_def request_date_def)

lemma parse_input_other:
  "http_method req \<noteq> ''GET'' \<Longrightarrow> http_method req \<noteq> ''POST'' \<Longrightarrow> parse_input req = None"
  by (simp add: parse_input_def)

lemma not_date_examples: "\<not> matches_date ''06/07/2024''" "\<not> matches_date []"
  by (simp_all add: matches_date_def)



subsection \<open>The cap on running tasks\<close>

lemma pool_step_cap:
  "pool_step F p p' \<Longrightarrow> length (running p) \<le> CONCURRENCY \<Longrightarrow> length (running p') \<le> CONCURRENCY"
  by (induction rule: pool_step.induct) (auto simp: launch_def settle_def)

lemma refill_steps: "(pool_step F)\<^sup>*\<^sup>* p (refill F p)"
proof (induction F p rule: refill.induct)
  case (1 F p)
  show ?case
  proof (cases "queue p")
    case Nil
    then show ?thesis by (simp add: refill.simps [of F p])
  next
    case (Cons t q)
    show ?thesis
    proof (cases "length (running p) < CONCURRENCY")
      case True
      have "pool_step F p (launch F t p)"
        using Cons True by (rule pool_step.start)
      with 1 [OF Cons True] Cons True show ?thesis
        by (simp add: refill.simps [of F p])
    next
      case False
      with Cons show ?thesis by (simp add: refill.simps [of F p])
    qed
  qed
qed

lemma settle_pick_steps: "(pool_step F)\<^sup>*\<^sup>* p (settle_pick F i p)"
proof (cases "running p = []")
  case True
  then show ?thesis by (simp add: settle_pick_def)
next
  case False
  then have "i mod length (running p) < length (running p)"
    by simp
  then have "pool_step F p (settle F (i mod length (running p)) p)"
    by (rule pool_step.complete)
  with False show ?thesis by (simp add: settle_pick_def)
qed

lemma fold_settle_pick_steps: "(pool_step F)\<^sup>*\<^sup>* p (fold (settle_pick F) picks p)"
proof (induction picks arbitrary: p)
  case Nil
  show ?case by simp
next
  case (Cons i picks)
  from settle_pick_steps [of F p i] Cons [of "settle_pick F i p"] show ?case
    by simp
qed

lemma await_race_steps: "(pool_step F)\<^sup>*\<^sup>* p (await_race F ev p)"
  unfolding await_race_def
  using settle_pick_steps [of F p "fst ev"]
    fold_settle_pick_steps [of F "settle_pick F (fst ev) p" "snd ev"]
  by simp

lemma run_pool_steps: "(pool_step F)\<^sup>*\<^sup>* p (run_pool F sched p)"
proof (induction F sched p rule: run_pool.induct)
  case (1 F sched p)
  show ?case
  proof (cases "queue p = [] \<and> running p = []")
    case True
    then show ?thesis by (simp add: run_pool.simps [of F sched p])
  next
    case False
    from refill_steps [of F p]
      await_race_steps [of F "refill F p" "case sched of [] \<Rightarrow> (0, []) | ev # _ \<Rightarrow> ev"]
      1 [OF False] False
    show ?thesis
      by (simp add: run_pool.simps [of F sched p])
  qed
qed

text \<open>
  Claim C8. In every state that the loop can reach from its start (a queue of tasks,
  nothing running), by starting tasks while fewer than six are running and by seeing
  running tasks complete in any order, at most six tasks are running; so with twenty
  requested symbols no more than six requests are in flight at any moment.
\<close>

theorem pool_cap:
  assumes "(pool_step F)\<^sup>*\<^sup>* \<lparr>queue = q, running = [], results = [], fetched = []\<rparr> p"
  shows "length (running p) \<le> 6"
  using assms
proof (induction rule: rtranclp_induct)
  case base
  show ?case by simp
next
  case (step p p')
  from pool_step_cap [OF step(2)] step(3) show ?case
    by (simp add: CONCURRENCY_def)
qed

definition twenty_tasks :: pool where
  "twenty_tasks = \<lparr>queue = enumerate 0 (take 20 DEFAULT_SEED), running = [], results = [], fetched = []\<rparr>"

lemma twenty_tasks_refill:
  "length (queue twenty_tasks) = 20"
  "length (running (refill (\<lambda>t. (failed (snd t) ''HTTP 403'' None, [])) twenty_tasks)) = 6"
  by code_simp+

theorem pool_cap_witness:
  "(pool_step (\<lambda>t. (failed (snd t) ''HTTP 403'' None, [])))\<^sup>*\<^sup>* twenty_tasks
      (refill (\<lambda>t. (failed (snd t) ''HTTP 403'' None, [])) twenty_tasks)
   \<and> length (queue twenty_tasks) = 20
   \<and> length (running (refill (\<lambda>t. (failed (snd t) ''HTTP 403'' None, [])) twenty_tasks)) = 6
   \<and> length (running (refill (\<lambda>t. (failed (snd t) ''HTTP 403'' None, [])) twenty_tasks)) \<le> 6"
  using pool_cap [of "\<lambda>t. (failed (snd t) ''HTTP 403'' None, [])" "enumerate 0 (take 20 DEFAULT_SEED)"
          "refill (\<lambda>t. (failed (snd t) ''HTTP 403'' None, [])) twenty_tasks"]
    refill_steps [of "\<lambda>t. (failed (snd t) ''HTTP 403'' None, [])" twenty_tasks]
  by (simp add: twenty_tasks_refill)

subsection \<open>The order of the items\<close>

lemma sorted_wrt_unique:
  assumes anti: "\<And>x y. le x y \<Longrightarrow> le y x \<Longrightarrow> x = y"
  shows "sorted_wrt le xs \<Longrightarrow> sorted_wrt le ys \<Longrightarrow> mset xs = mset ys \<Longrightarrow> xs = ys"
proof (induction xs arbitrary: ys)
  case Nil
  then show ?case by simp
next
  case (Cons x xs)
  from Cons.prems(3) obtain y ys' where ys: "ys = y # ys'"
    by (cases ys) auto
  have "x \<in> set ys" "y \<in> set (x # xs)"
    using Cons.prems(3) ys by (metis list.set_intros(1) set_mset_mset)+
  then have "x = y \<or> (le y x \<and> le x y)"
    using Cons.prems(1,2) ys by auto
  with anti have xy: "x = y"
    by blast
  with Cons.prems ys have "xs = ys'"
    by (intro Cons.IH) simp_all
  with xy ys show ?case by simp
qed


lemma get_request_parse:
  "parse_input (get_request ''2024-06-08'' ''gbpusd, EURUSD,,usdeur,EU,EURUSD'')
     = Some (Some ''2024-06-08'', Array [''gbpusd'', ''EURUSD'', ''usdeur'', ''EU'', ''EURUSD''])"
  by code_simp

lemma compare_units_antisym:
  "compare_units x y \<le> 0 \<and> compare_units y x \<le> 0 \<longrightarrow> x = y"
  using string_gt_total [of x y] by (auto simp: compare_units_def split: if_splits)


subsection \<open>Counts, and a date that is no date\<close>

lemma normalised_examples:
  "normalise ''gbpusd'' = ''GBPUSD''" "normalise ''usdeur'' = ''USDEUR''"
  by code_simp+


lemma month_13:
  "matches_date ''2024-13-45''"
  "Date_parse (''2024-13-45'' @ ''T00:00:00-04:00'') = None"
  "parse_input (get_request ''2024-13-45'' ''EURUSD'') = Some (Some ''2024-13-45'', Array [''EURUSD''])"
  by code_simp+


subsection \<open>The outcomes of one symbol\<close>

lemma fetchWSJ_tagged:
  "(status (fst (fetchWSJ fetch raw mdy isoD)) = Error \<longleftrightarrow> error (fst (fetchWSJ fetch raw mdy isoD)) \<noteq> None)
   \<and> (source_url (fst (fetchWSJ fetch raw mdy isoD)) = None \<longleftrightarrow> snd (fetchWSJ fetch raw mdy isoD) = [])"
  by (simp add: fetchWSJ_def Let_def failed_def
        split: fetch_outcome.splits body_read.splits option.splits)

lemma fetchWSJ_failures:
  assumes "matches_symbol (normalise raw)" "endsWith (normalise raw) ''USD''"
  shows "(fetch (quote_url (normalise raw) mdy) = Rejected e \<longrightarrow>
            fetchWSJ fetch raw mdy isoD =
              (failed (normalise raw) (error_text e) (Some (quote_url (normalise raw) mdy)),
               [quote_url (normalise raw) mdy]))
         \<and> (fetch (quote_url (normalise raw) mdy) = Response c rbody \<and> \<not> (200 \<le> c \<and> c \<le> 299) \<longrightarrow>
            fetchWSJ fetch raw mdy isoD =
              (failed (normalise raw) (''HTTP '' @ String_of_nat c) (Some (quote_url (normalise raw) mdy)),
               [quote_url (normalise raw) mdy]))
         \<and> (fetch (quote_url (normalise raw) mdy) = Response c (TextFailed e) \<and> 200 \<le> c \<and> c \<le> 299 \<longrightarrow>
            fetchWSJ fetch raw mdy isoD =
              (failed (normalise raw) (error_text e) (Some (quote_url (normalise raw) mdy)),
               [quote_url (normalise raw) mdy]))
         \<and> (fetch (quote_url (normalise raw) mdy) = Response c (Text csv) \<and> 200 \<le> c \<and> c \<le> 299
              \<and> parseWSJCSV csv isoD = None \<longrightarrow>
            fetchWSJ fetch raw mdy isoD =
              (failed (normalise raw) ''row not found'' (Some (quote_url (normalise raw) mdy)),
               [quote_url (normalise raw) mdy]))"
  using assms by (simp add: fetchWSJ_def Let_def)

lemma http_403: "''HTTP '' @ String_of_nat 403 = ''HTTP 403''" "String_of_nat 403 = ''403''"
  by code_simp+


lemma symbol_examples_eurusd: "quote_url ''EURUSD'' ''06/07/2024'' =
  ''https://www.wsj.com/market-data/quotes/FX/EURUSD/historical-prices/download?startDate=06%2F07%2F2024&endDate=06%2F07%2F2024&num_rows=50''"
  by code_simp


section \<open>The CSV row matcher\<close>

lemma scan_rows_find:
  "scan_rows iDate iClose w rows =
     (case find (\<lambda>line. row_date iDate iClose line = Some w) rows of
        None \<Rightarrow> None
      | Some line \<Rightarrow> row_close w (row_cols line ! iClose))"
  by (induction rows) (auto split: option.splits)

lemma parseWSJCSV_find:
  "parseWSJCSV csv w =
     (if csv = [] \<or> CHR 0x0A \<notin> set csv then None
      else case header_columns (hd (split_lines (trim csv))) of
        None \<Rightarrow> None
      | Some (iDate, iClose) \<Rightarrow>
          (case find (\<lambda>line. row_date iDate iClose line = Some w) (tl (split_lines (trim csv))) of
             None \<Rightarrow> None
           | Some line \<Rightarrow>
               (let c = row_cols line ! iClose
                in if c = [] \<or> Number_isNaN c then None else Some \<lparr>pdate = w, pclose = c\<rparr>)))"
proof -
  have ne: "split_lines s \<noteq> []" for s
    by (induction s rule: split_lines.induct) (auto split: list.splits simp: neq_Nil_conv elim: cons_first.elims)
  show ?thesis
    using ne [of "trim csv"]
    by (cases "split_lines (trim csv)")
      (auto simp: parseWSJCSV_def scan_rows_find row_close_def Let_def split: option.splits)
qed

lemma split_on_none: "c \<notin> set a \<Longrightarrow> split_on c a = [a]"
  by (induction a) auto

lemma split_on_append: "c \<notin> set a \<Longrightarrow> split_on c (a @ c # b) = a # split_on c b"
  by (induction a) auto

lemma row_iso_parts:
  assumes "CHR ''/'' \<notin> set mm" "CHR ''/'' \<notin> set dd" "CHR ''/'' \<notin> set yy"
  shows "row_iso (mm @ ''/'' @ dd @ ''/'' @ yy) =
           Some ((if length yy = 2 then (if string_gt yy ''50'' then ''19'' else ''20'') @ yy else yy)
                 @ ''-'' @ padStart 2 (CHR ''0'') mm @ ''-'' @ padStart 2 (CHR ''0'') dd)"
  using assms by (simp add: row_iso_def split_on_append split_on_none Let_def)

lemma pivot_digits:
  "isDigit a \<Longrightarrow> isDigit b \<Longrightarrow> string_gt [a, b] ''50'' \<longleftrightarrow> 50 < digits_val [a, b]"
  unfolding isDigit_cases
  by (elim disjE; simp add: digits_val_def digit_val_def decimal_digits_def)

lemma header_examples:
  "header_columns ''Date,Open,High,Low,Close,Volume'' = Some (0, 4)"
  "header_columns '' CLOSE , date'' = Some (1, 0)"
  by code_simp+

lemma row_iso_examples:
  "row_iso ''06/07/24'' = Some ''2024-06-07''" "row_iso ''06/07/51'' = Some ''1951-06-07''"
  "row_iso ''6/7/2024'' = Some ''2024-06-07''"
  by code_simp+

lemma csv_examples:
  "parseWSJCSV ''Date,Open,High,Low,Close,Volume\<newline>06/07/24,1.08,1.09,1.07,1.085,1000'' ''2024-06-07''
     = Some \<lparr>pdate = ''2024-06-07'', pclose = ''1.085''\<rparr>"
  "parseWSJCSV ''Date,Open,High,Low,Close,Volume\<newline>06/07/24,1.08,1.09,1.07,N/A,1000'' ''2024-06-07'' = None"
  "parseWSJCSV ''Date,Close\<newline>06/07/24\<newline>06/07/24,1.085'' ''2024-06-07''
     = Some \<lparr>pdate = ''2024-06-07'', pclose = ''1.085''\<rparr>"
  by code_simp+

lemma short_row:
  "row_cols ''06/07/24'' = [''06/07/24'']" "row_date 0 1 ''06/07/24'' = None"
  by code_simp+

text \<open>
  Claim C3, as amended. The Date and Close columns are found by their header names, in
  any letter case and at any position. A data row with fewer cells than the later of
  the two columns needs, or whose date cell has not three parts separated by slashes, is
  skipped; the date cell \<open>mm/dd/yy\<close> or \<open>mm/dd/yyyy\<close> of any other row is normalised to
  \<open>yyyy-mm-dd\<close>, a year of two characters getting the century 19 when it is greater than
  50 and 20 otherwise. The first row whose normalised date equals the target decides:
  the result is that date with the row's close cell when the cell is not empty and
  reads as a number, and not-found otherwise, as it is when no row matches. The header
  Date,Open,High,Low,Close,Volume with the row 06/07/24,1.08,1.09,1.07,1.085,1000 gives
  the date 2024-06-07 and the close 1.085 for the target 2024-06-07; with N/A as the
  close cell the result is not-found.
\<close>

theorem parseWSJCSV_first_match:
  "parseWSJCSV csv w =
     (if csv = [] \<or> CHR 0x0A \<notin> set csv then None
      else case header_columns (hd (split_lines (trim csv))) of
        None \<Rightarrow> None
      | Some (iDate, iClose) \<Rightarrow>
          (case find (\<lambda>line. row_date iDate iClose line = Some w) (tl (split_lines (trim csv))) of
             None \<Rightarrow> None
           | Some line \<Rightarrow>
               (let c = row_cols line ! iClose
                in if c = [] \<or> Number_isNaN c then None else Some \<lparr>pdate = w, pclose = c\<rparr>)))
   \<and> row_date iDate iClose line =
       (if length (row_cols line) < max iDate iClose + 1 then None else row_iso (row_cols line ! iDate))
   \<and> (CHR ''/'' \<notin> set mm \<and> CHR ''/'' \<notin> set dd \<and> CHR ''/'' \<notin> set yy \<longrightarrow>
        row_iso (mm @ ''/'' @ dd @ ''/'' @ yy) =
          Some ((if length yy = 2 then (if string_gt yy ''50'' then ''19'' else ''20'') @ yy else yy)
                @ ''-'' @ padStart 2 (CHR ''0'') mm @ ''-'' @ padStart 2 (CHR ''0'') dd))
   \<and> (isDigit a \<and> isDigit b \<longrightarrow> (string_gt [a, b] ''50'' \<longleftrightarrow> 50 < digits_val [a, b]))
   \<and> header_columns ''Date,Open,High,Low,Close,Volume'' = Some (0, 4)
   \<and> header_columns '' CLOSE , date'' = Some (1, 0)
   \<and> parseWSJCSV ''Date,Open,High,Low,Close,Volume\<newline>06/07/24,1.08,1.09,1.07,1.085,1000'' ''2024-06-07''
       = Some \<lparr>pdate = ''2024-06-07'', pclose = ''1.085''\<rparr>
   \<and> parseWSJCSV ''Date,Open,High,Low,Close,Volume\<newline>06/07/24,1.08,1.09,1.07,N/A,1000'' ''2024-06-07''
       = None"
  using parseWSJCSV_find [of csv w] row_iso_parts [of mm dd yy] pivot_digits [of a b]
  by (simp add: header_examples csv_examples row_date_def Let_def)

theorem parseWSJCSV_first_match_witness:
  "CHR ''/'' \<notin> set ''06'' \<and> CHR ''/'' \<notin> set ''07'' \<and> CHR ''/'' \<notin> set ''24''
   \<and> row_iso (''06'' @ ''/'' @ ''07'' @ ''/'' @ ''24'') = Some ''2024-06-07''
   \<and> isDigit (CHR ''5'') \<and> isDigit (CHR ''1'') \<and> string_gt ''51'' ''50''
   \<and> row_date 0 4 ''06/07/24,1.08,1.09,1.07,1.085,1000'' = Some ''2024-06-07''"
proof -
  have e: "isDigit (CHR ''5'')" "isDigit (CHR ''1'')" "digits_val ''51'' = 51"
    "(if string_gt ''24'' ''50'' then ''19'' else ''20'') @ ''24'' @ ''-'' @ padStart 2 (CHR ''0'') ''06''
       @ ''-'' @ padStart 2 (CHR ''0'') ''07'' = ''2024-06-07''"
    "length (row_cols ''06/07/24,1.08,1.09,1.07,1.085,1000'') = 6"
    "row_cols ''06/07/24,1.08,1.09,1.07,1.085,1000'' ! 0 = ''06/07/24''"
    by code_simp+
  from parseWSJCSV_first_match [of "[]" "[]" 0 4 "''06/07/24,1.08,1.09,1.07,1.085,1000''"
      "''06''" "''07''" "''24''" "CHR ''5''" "CHR ''1''"]
  show ?thesis
    using e row_iso_examples(1) by simp
qed

text \<open>
  The claim as it stands fails where a row that is too short comes before a full row of
  the same date: the first row whose date is the target has no close cell, yet the
  result is not not-found, it is the close of the second row.
\<close>

theorem parseWSJCSV_short_row_counterexample:
  "header_columns ''Date,Close'' = Some (0, 1)
   \<and> row_cols ''06/07/24'' = [''06/07/24'']
   \<and> row_iso (row_cols ''06/07/24'' ! 0) = Some ''2024-06-07''
   \<and> parseWSJCSV ''Date,Close\<newline>06/07/24\<newline>06/07/24,1.085'' ''2024-06-07''
       = Some \<lparr>pdate = ''2024-06-07'', pclose = ''1.085''\<rparr>"
proof -
  have "header_columns ''Date,Close'' = Some (0, 1)"
    by code_simp
  then show ?thesis
    by (simp add: short_row csv_examples row_iso_examples)
qed

subsection \<open>A successful result\<close>

lemma parseWSJCSV_Some:
  assumes "parseWSJCSV csv w = Some p"
  shows "pdate p = w \<and> pclose p \<noteq> [] \<and> \<not> Number_isNaN (pclose p)"
  using assms unfolding parseWSJCSV_find
  by (auto simp: Let_def split: if_splits option.splits)

text \<open>
  Claim C10. Every result of \<^verbatim>\<open>fetchWSJ\<close> with the status \<open>Ok\<close> has as its date exactly
  the resolved ISO date that was asked for, and as its close a string that is not empty
  and that \<^verbatim>\<open>Number\<close> reads as a number.
\<close>

theorem fetchWSJ_ok_fields:
  assumes "status (fst (fetchWSJ fetch raw mdy isoD)) = Ok"
  shows "date (fst (fetchWSJ fetch raw mdy isoD)) = Some isoD
         \<and> (\<exists>c. close (fst (fetchWSJ fetch raw mdy isoD)) = Some c \<and> c \<noteq> [] \<and> \<not> Number_isNaN c)"
  using assms parseWSJCSV_Some [of _ isoD]
  by (auto simp: fetchWSJ_def Let_def failed_def
        split: if_splits fetch_outcome.splits body_read.splits option.splits)

theorem fetchWSJ_ok_fields_witness:
  "status (fst (fetchWSJ (\<lambda>u. Response 200 (Text ''Date,Open,High,Low,Close,Volume\<newline>06/07/24,1.08,1.09,1.07,1.085,1000''))
                  ''EURUSD'' ''06/07/2024'' ''2024-06-07'')) = Ok
   \<and> date (fst (fetchWSJ (\<lambda>u. Response 200 (Text ''Date,Open,High,Low,Close,Volume\<newline>06/07/24,1.08,1.09,1.07,1.085,1000''))
                  ''EURUSD'' ''06/07/2024'' ''2024-06-07'')) = Some ''2024-06-07''
   \<and> close (fst (fetchWSJ (\<lambda>u. Response 200 (Text ''Date,Open,High,Low,Close,Volume\<newline>06/07/24,1.08,1.09,1.07,1.085,1000''))
                  ''EURUSD'' ''06/07/2024'' ''2024-06-07'')) = Some ''1.085''"
proof -
  have s: "status (fst (fetchWSJ (\<lambda>u. Response 200 (Text ''Date,Open,High,Low,Close,Volume\<newline>06/07/24,1.08,1.09,1.07,1.085,1000''))
                  ''EURUSD'' ''06/07/2024'' ''2024-06-07'')) = Ok"
    and c: "close (fst (fetchWSJ (\<lambda>u. Response 200 (Text ''Date,Open,High,Low,Close,Volume\<newline>06/07/24,1.08,1.09,1.07,1.085,1000''))
                  ''EURUSD'' ''06/07/2024'' ''2024-06-07'')) = Some ''1.085''"
    by (simp_all add: fetchWSJ_def Let_def normalise_examples symbol_examples csv_examples)
  from fetchWSJ_ok_fields [OF s] s c show ?thesis
    by simp
qed

end
